theory Spec2Isabelle
  imports Main "HOL-Library.AList" "HOL-Library.Char_ord" "HOL-Library.List_Lexorder"
    "HOL-Library.Multiset"
begin

section \<open>Strings\<close>

text \<open>
  Go strings are modelled as \<^typ>\<open>string\<close>, one \<^typ>\<open>char\<close> per character: the model
  is about text in which every character is one \<^typ>\<open>char\<close>, and it does not follow the
  Go library into the bytes of longer UTF-8 sequences. The functions of package \<open>strings\<close>
  that \<open>list_setters.go\<close> calls are written out below.
\<close>

definition SetterCommentIdentifier :: string where
  "SetterCommentIdentifier = ''# kpt-set: ''"

definition HasPrefix :: "string \<Rightarrow> string \<Rightarrow> bool" where
  "HasPrefix s p \<longleftrightarrow> take (length p) s = p"

definition HasSuffix :: "string \<Rightarrow> string \<Rightarrow> bool" where
  "HasSuffix s p \<longleftrightarrow> length p \<le> length s \<and> drop (length s - length p) s = p"

definition TrimPrefix :: "string \<Rightarrow> string \<Rightarrow> string" where
  "TrimPrefix s p = (if HasPrefix s p then drop (length p) s else s)"

definition TrimSuffix :: "string \<Rightarrow> string \<Rightarrow> string" where
  "TrimSuffix s p = (if HasSuffix s p then take (length s - length p) s else s)"

text \<open>White space as \<open>unicode.IsSpace\<close> has it in the Latin-1 range:
  tab, line feed, vertical tab, form feed, carriage return, space, NEL and NBSP.\<close>

definition isSpace :: "char \<Rightarrow> bool" where
  "isSpace c \<longleftrightarrow> c \<in> set [CHR 0x09, CHR 0x0A, CHR 0x0B, CHR 0x0C, CHR 0x0D, CHR 0x20,
     CHR 0x85, CHR 0xA0]"

definition TrimSpace :: "string \<Rightarrow> string" where
  "TrimSpace s = rev (dropWhile isSpace (rev (dropWhile isSpace s)))"

text \<open>\<open>strings.Contains\<close>: the substring occurs at some position.\<close>

fun Contains :: "string \<Rightarrow> string \<Rightarrow> bool" where
  "Contains [] sub = (sub = [])"
| "Contains (c # cs) sub = (HasPrefix (c # cs) sub \<or> Contains cs sub)"

text \<open>\<open>strings.ReplaceAll\<close>: the occurrences of \<open>old\<close> are replaced from the left, without
  overlap. An empty \<open>old\<close> matches before every character and at the end.\<close>

fun replaceNonEmpty :: "string \<Rightarrow> string \<Rightarrow> string \<Rightarrow> string" where
  "replaceNonEmpty old new [] = []"
| "replaceNonEmpty old new (c # cs) =
     (if HasPrefix (c # cs) old then new @ replaceNonEmpty old new (drop (length old - 1) cs)
      else c # replaceNonEmpty old new cs)"

definition ReplaceAll :: "string \<Rightarrow> string \<Rightarrow> string \<Rightarrow> string" where
  "ReplaceAll s old new =
     (if old = [] then new @ concat (map (\<lambda>c. c # new) s) else replaceNonEmpty old new s)"

section \<open>Regular expressions\<close>

text \<open>\<open>regexp.QuoteMeta\<close> puts a backslash before each of the characters
  \<^verbatim>\<open>\.+*?()|[]{}^$\<close>.\<close>

definition special :: "char \<Rightarrow> bool" where
  "special c \<longleftrightarrow> c \<in> set [CHR 0x5C, CHR ''.'', CHR ''+'', CHR ''*'', CHR ''?'', CHR ''('',
     CHR '')'', CHR ''|'', CHR ''['', CHR '']'', CHR ''{'', CHR ''}'', CHR ''^'', CHR ''$'']"

definition QuoteMeta :: "string \<Rightarrow> string" where
  "QuoteMeta s = concat (map (\<lambda>c. if special c then [CHR 0x5C, c] else [c]) s)"

text \<open>
  The expressions that \<open>currentSetterValues\<close> compiles are made of escaped literal text and
  of the capturing group \<^verbatim>\<open>(?P<x>.*)\<close>. \<open>Compile\<close> reads this fragment of the syntax
  of package \<open>regexp\<close>: a character that is not special, a backslash followed by a special
  character, or the group. It answers \<open>None\<close> on anything else; lemma
  \<open>Compile_setterRegexp\<close> below shows that the expressions built by
  \<open>currentSetterValues\<close> never leave the fragment.
\<close>

datatype inst = Lit char | Group

definition groupExpr :: string where
  "groupExpr = ''(?P<x>.*)''"

fun Compile :: "string \<Rightarrow> inst list option" where
  "Compile [] = Some []"
| "Compile (c # cs) =
     (if HasPrefix (c # cs) groupExpr then map_option ((#) Group) (Compile (drop 8 cs))
      else if c = CHR 0x5C then
        (case cs of [] \<Rightarrow> None
         | d # ds \<Rightarrow> if special d then map_option ((#) (Lit d)) (Compile ds) else None)
      else if special c then None
      else map_option ((#) (Lit c)) (Compile cs))"

text \<open>
  Matching is leftmost-first, as \<open>regexp\<close> defines it for \<open>Compile\<close>: the match starts at the
  first position where one exists and each group \<^verbatim>\<open>.*\<close> takes the longest text that lets the
  rest of the expression match. The dot matches every character except line feed.
  \<open>matchHere r s\<close> matches \<open>r\<close> at the start of \<open>s\<close> and returns the matched text and the
  text of each group.
\<close>

fun firstSome :: "('a \<Rightarrow> 'b option) \<Rightarrow> 'a list \<Rightarrow> 'b option" where
  "firstSome f [] = None"
| "firstSome f (x # xs) = (case f x of Some y \<Rightarrow> Some y | None \<Rightarrow> firstSome f xs)"

definition dotRun :: "string \<Rightarrow> nat" where
  "dotRun s = length (takeWhile (\<lambda>c. c \<noteq> CHR 0x0A) s)"

primrec matchHere :: "inst list \<Rightarrow> string \<Rightarrow> (string \<times> string list) option" where
  "matchHere [] s = Some ([], [])"
| "matchHere (i # r) s =
     (case i of
        Lit c \<Rightarrow>
          (case s of [] \<Rightarrow> None
           | x # s' \<Rightarrow>
               if x = c then map_option (\<lambda>(m, gs). (x # m, gs)) (matchHere r s') else None)
      | Group \<Rightarrow>
          firstSome
            (\<lambda>k. map_option (\<lambda>(m, gs). (take k s @ m, take k s # gs)) (matchHere r (drop k s)))
            (rev [0..<Suc (dotRun s)]))"

text \<open>\<open>FindStringSubmatch\<close> returns the leftmost match followed by the text of its groups,
  or \<open>None\<close> (the nil slice) when the expression matches nowhere.\<close>

fun FindStringSubmatch :: "inst list \<Rightarrow> string \<Rightarrow> string list option" where
  "FindStringSubmatch r [] = map_option (\<lambda>(m, gs). m # gs) (matchHere r [])"
| "FindStringSubmatch r (c # cs) =
     (case matchHere r (c # cs) of
        Some (m, gs) \<Rightarrow> Some (m # gs)
      | None \<Rightarrow> FindStringSubmatch r cs)"

section \<open>Marker parser and pattern resolver\<close>

definition extractSetterPattern :: "string \<Rightarrow> string" where
  "extractSetterPattern lineComment =
     (if \<not> HasPrefix lineComment SetterCommentIdentifier then []
      else TrimSpace (TrimPrefix lineComment SetterCommentIdentifier))"

definition clean :: "string \<Rightarrow> string" where
  "clean input = TrimSuffix (TrimPrefix (TrimSpace input) ''${'') ''}''"

text \<open>\<open>unresolvedSetters\<close> returns every match of \<^verbatim>\<open>\$\{([^}]*)\}\<close> from left to right:
  a match starts at \<^verbatim>\<open>${\<close> and ends at the first closing brace after it, and the search
  goes on behind the match.\<close>

fun unresolvedSetters :: "string \<Rightarrow> string list" where
  "unresolvedSetters [] = []"
| "unresolvedSetters (c # cs) =
     (if HasPrefix (c # cs) ''${'' \<and> CHR ''}'' \<in> set (drop 1 cs) then
        (let name = takeWhile (\<lambda>x. x \<noteq> CHR ''}'') (drop 1 cs)
         in (''${'' @ name @ ''}'') # unresolvedSetters (drop (length name + 2) cs))
      else unresolvedSetters cs)"

text \<open>The expression that \<open>currentSetterValues\<close> compiles: the quoted pattern in which the
  quoted text of each placeholder, in turn, is replaced by the group.\<close>

definition setterRegexp :: "string \<Rightarrow> string" where
  "setterRegexp pattern =
     fold (\<lambda>setterName p. ReplaceAll p (QuoteMeta setterName) groupExpr)
       (unresolvedSetters pattern) (QuoteMeta pattern)"

text \<open>The last loop of \<open>currentSetterValues\<close>: an empty group text discards the whole result;
  otherwise the name is bound, a later binding of the same name replacing the earlier.\<close>

fun bindValues :: "(string \<times> string) list \<Rightarrow> (string \<times> string) list \<Rightarrow> (string \<times> string) list" where
  "bindValues [] res = res"
| "bindValues ((ur, v) # rest) res =
     (if v = [] then [] else bindValues rest (AList.update (clean ur) v res))"

text \<open>A Go map is an association list with distinct keys; \<open>m[k] = v\<close> is
  \<^const>\<open>AList.update\<close>. \<open>currentSetterValues\<close> returns the map from setter names to values.\<close>

definition currentSetterValues :: "string \<Rightarrow> string \<Rightarrow> (string \<times> string) list" where
  "currentSetterValues pattern value =
     (let urs = unresolvedSetters pattern in
      case Compile (setterRegexp pattern) of
        None \<Rightarrow> []
      | Some r \<Rightarrow>
          (case FindStringSubmatch r value of
             None \<Rightarrow> []
           | Some [] \<Rightarrow> []
           | Some (whole # setterValues) \<Rightarrow>
               if length urs \<noteq> length setterValues then []
               else bindValues (zip urs setterValues) []))"

section \<open>Documents\<close>

text \<open>
  A node of a YAML tree has the fields of \<open>yaml.Node\<close> that the code and the functions of
  kyaml it calls read. The children of a mapping node are its keys and values in turn;
  \<open>mapNodes\<close> pairs them up. In the model a node always exists, so the nil checks of the
  visitors fire only for a field that \<open>Field\<close> does not find.
\<close>

datatype Kind = DocumentNode | SequenceNode | MappingNode | ScalarNode | AliasNode

datatype Style = PlainStyle | TaggedStyle | DoubleQuotedStyle | SingleQuotedStyle
  | LiteralStyle | FoldedStyle | FlowStyle

datatype YNode =
  Node (Kind: Kind) (Style: Style) (Tag: string) (LineComment: string) (Value: string)
    (Content: "YNode list")

datatype ErrSetterDiscovery = ErrSetterDiscovery (message: string)

text \<open>An error value is a recoverable \<open>ErrSetterDiscovery\<close> or any other error.\<close>

datatype error = Discovery ErrSetterDiscovery | Failure string

fun mapNodes :: "'a list \<Rightarrow> ('a \<times> 'a) list" where
  "mapNodes (k # v # rest) = (k, v) # mapNodes rest"
| "mapNodes _ = []"

subsection \<open>Functions of kyaml\<close>

text \<open>
  \<open>ErrorIfInvalid\<close> lets a node with the null tag pass whatever its kind; any other node
  must have the kind asked for, and a mapping node its children in pairs.
\<close>

definition NullNodeTag :: string where
  "NullNodeTag = ''!!null''"

definition IsMissingOrNull :: "YNode \<Rightarrow> bool" where
  "IsMissingOrNull rn \<longleftrightarrow> Tag rn = NullNodeTag"

definition ErrorIfInvalid :: "YNode \<Rightarrow> Kind \<Rightarrow> error option" where
  "ErrorIfInvalid rn kind =
     (if IsMissingOrNull rn then None
      else if Kind rn \<noteq> kind then Some (Failure ''wrong Node Kind'')
      else if kind = MappingNode \<and> odd (length (Content rn))
      then Some (Failure ''yaml MappingNodes must have even length contents'')
      else None)"

text \<open>\<open>Elements\<close>: the children of a node that passes as a sequence. A node with the
  null tag passes too; as the decoder builds it, it has no children.\<close>

definition Elements :: "YNode \<Rightarrow> error + YNode list" where
  "Elements rn =
     (case ErrorIfInvalid rn SequenceNode of
        Some err \<Rightarrow> Inl err
      | None \<Rightarrow> Inr (Content rn))"

text \<open>\<open>Fields\<close>: the texts of the keys of a node that passes as a mapping, that is of
  every second child.\<close>

fun fieldNames :: "YNode list \<Rightarrow> string list" where
  "fieldNames (k # v # rest) = Value k # fieldNames rest"
| "fieldNames [k] = [Value k]"
| "fieldNames [] = []"

definition Fields :: "YNode \<Rightarrow> error + string list" where
  "Fields rn =
     (case ErrorIfInvalid rn MappingNode of
        Some err \<Rightarrow> Inl err
      | None \<Rightarrow> Inr (fieldNames (Content rn)))"

text \<open>
  \<open>Field\<close>, here \<open>Field_rn\<close> as HOL has a constant of that name: the first field of a
  mapping node whose key has the given text, nil (\<open>None\<close>) when there is none or the node
  is not a mapping. For a last key without a value
  the value is read past the end of the children, at which Go panics; the model gives a
  failure. The decoder builds no such node.
\<close>

fun lookupField :: "YNode list \<Rightarrow> string \<Rightarrow> error + (YNode \<times> YNode) option" where
  "lookupField (k # v # rest) field =
     (if Value k = field then Inr (Some (k, v)) else lookupField rest field)"
| "lookupField [k] field =
     (if Value k = field then Inl (Failure ''index out of range'') else Inr None)"
| "lookupField [] field = Inr None"

definition Field_rn :: "YNode \<Rightarrow> string \<Rightarrow> error + (YNode \<times> YNode) option" where
  "Field_rn rn field =
     (if Kind rn \<noteq> MappingNode then Inr None else lookupField (Content rn) field)"

section \<open>Setter registry\<close>

text \<open>
  The structs of \<open>list_setters.go\<close>. Field names carry a suffix where two structs share
  them. A count is an \<^typ>\<open>int\<close>: it counts visited fields and stays far below the limit
  of Go's 64-bit \<open>int\<close>. The two maps of the registry are association lists with distinct
  keys, looked up with \<^const>\<open>map_of\<close> and written with \<^const>\<open>AList.update\<close>.
\<close>

record ScalarSetter =
  Name_s :: string
  Value_s :: string
  Count_s :: int

record ArraySetter =
  Name_a :: string
  Values_a :: "string list"
  Count_a :: int

record Result =
  Name_r :: string
  Value_r :: string
  Type_r :: string
  Count_r :: int

record ListSetters =
  ScalarSetters :: "(string \<times> ScalarSetter) list"
  ArraySetters :: "(string \<times> ArraySetter) list"
  Warnings :: "ErrSetterDiscovery list"
  filePath :: string

definition ArraySetterType :: string where
  "ArraySetterType = ''list''"

definition ScalarSetterType :: string where
  "ScalarSetterType = ''string''"

definition New :: ListSetters where
  "New = \<lparr>ScalarSetters = [], ArraySetters = [], Warnings = [], filePath = []\<rparr>"

text \<open>
  Go leaves the order in which \<open>range\<close> walks a map open. A loop over a map \<open>m\<close> is
  modelled as a loop over \<open>rangeMap ord m\<close>, where \<open>ord n\<close> lists the positions of
  a map of \<open>n\<close> entries in the order of the walk; \<open>iterOrder ord\<close> says that every position
  comes exactly once.
\<close>

definition rangeMap :: "(nat \<Rightarrow> nat list) \<Rightarrow> 'a list \<Rightarrow> 'a list" where
  "rangeMap ord m = map ((!) m) (ord (length m))"

definition iterOrder :: "(nat \<Rightarrow> nat list) \<Rightarrow> bool" where
  "iterOrder ord \<longleftrightarrow> (\<forall>n. mset (ord n) = mset [0..<n])"

text \<open>A loop that stops at the first error; the state reached so far stays, as the
  receiver \<open>ls\<close> is updated in place.\<close>

fun forEach :: "('s \<Rightarrow> 'a \<Rightarrow> 's \<times> error option) \<Rightarrow> 's \<Rightarrow> 'a list \<Rightarrow> 's \<times> error option" where
  "forEach f s [] = (s, None)"
| "forEach f s (x # xs) =
     (case f s x of (s', None) \<Rightarrow> forEach f s' xs | (s', Some e) \<Rightarrow> (s', Some e))"

subsection \<open>Mapping fields\<close>

text \<open>The function that \<open>visitMapping\<close> hands to \<open>VisitFields\<close>, applied to one field.\<close>

definition visitField :: "ListSetters \<Rightarrow> YNode \<times> YNode \<Rightarrow> ListSetters \<times> error option" where
  "visitField ls node =
     (let key = fst node; val = snd node in
      if Kind val \<noteq> SequenceNode then (ls, None)
      else
        (case Elements val of
           Inl err \<Rightarrow> (ls, Some err)
         | Inr elements \<Rightarrow>
             (let nodeValues = sort (map Value elements);
                  linecomment =
                    (if Style val = FlowStyle then LineComment val else LineComment key);
                  setterPattern = extractSetterPattern linecomment
              in if setterPattern = [] then (ls, None)
                 else
                   (let setterName = clean setterPattern in
                    case map_of (ArraySetters ls) setterName of
                      Some a \<Rightarrow>
                        (ls\<lparr>ArraySetters :=
                             AList.update setterName (a\<lparr>Count_a := Count_a a + 1\<rparr>)
                               (ArraySetters ls)\<rparr>, None)
                    | None \<Rightarrow>
                        (ls\<lparr>ArraySetters :=
                             AList.update setterName
                               \<lparr>Name_a = setterName, Values_a = nodeValues, Count_a = 1\<rparr>
                               (ArraySetters ls)\<rparr>, None)))))"

text \<open>
  \<open>VisitFields\<close> of kyaml lists the names of the fields with \<open>Fields\<close> and calls the
  function on \<open>Field\<close> of each name in turn. Of two fields with the same key it so hands
  over the first one twice and the second one never. The function of \<open>visitMapping\<close>
  returns at once when it is handed nil.
\<close>

definition visitFieldNamed ::
  "YNode \<Rightarrow> ListSetters \<Rightarrow> string \<Rightarrow> ListSetters \<times> error option" where
  "visitFieldNamed object ls fieldName =
     (case Field_rn object fieldName of
        Inl err \<Rightarrow> (ls, Some err)
      | Inr None \<Rightarrow> (ls, None)
      | Inr (Some node) \<Rightarrow> visitField ls node)"

definition visitMapping :: "ListSetters \<Rightarrow> YNode \<Rightarrow> ListSetters \<times> error option" where
  "visitMapping ls object =
     (case Fields object of
        Inl err \<Rightarrow> (ls, Some err)
      | Inr srcFieldNames \<Rightarrow> forEach (visitFieldNamed object) ls srcFieldNames)"

subsection \<open>Scalar leaves\<close>

definition addScalar :: "string \<times> string \<Rightarrow> ListSetters \<Rightarrow> ListSetters" where
  "addScalar kv ls =
     (let setterName = fst kv; setterValue = snd kv in
      case map_of (ScalarSetters ls) setterName of
        Some s \<Rightarrow>
          ls\<lparr>ScalarSetters :=
               AList.update setterName (s\<lparr>Count_s := Count_s s + 1\<rparr>) (ScalarSetters ls)\<rparr>
      | None \<Rightarrow>
          ls\<lparr>ScalarSetters :=
               AList.update setterName
                 \<lparr>Name_s = setterName, Value_s = setterValue, Count_s = 1\<rparr>
                 (ScalarSetters ls)\<rparr>)"

definition visitScalar ::
  "(nat \<Rightarrow> nat list) \<Rightarrow> ListSetters \<Rightarrow> YNode \<Rightarrow> ListSetters \<times> error option" where
  "visitScalar ord ls object =
     (if Kind object \<noteq> ScalarNode then (ls, None)
      else
        (let linecomment = LineComment object;
             setterPattern = extractSetterPattern linecomment
         in if setterPattern = [] then (ls, None)
            else (fold addScalar
                    (rangeMap ord (currentSetterValues setterPattern (Value object))) ls,
                  None)))"

subsection \<open>Tree walker\<close>

datatype visit = VisitMapping YNode | VisitScalar YNode

text \<open>
  Modelled from the spec: the function \<open>accept\<close> that \<open>Filter\<close> calls is declared outside
  \<open>list_setters.go\<close>. By section 4.3 of the spec it walks the tree depth first in the order
  of the fields, applies the mapping rule to every mapping node and the scalar rule to every
  scalar leaf, and goes into the values of mappings and the elements of sequences; keys are
  not visited. \<open>walk\<close> lists the visits in the order in which they are made.
\<close>

lemma mapNodes_snd_subset: "set (map snd (mapNodes xs)) \<subseteq> set xs"
  by (induction xs rule: mapNodes.induct) auto

lemma size_list_member: "x \<in> set xs \<Longrightarrow> size x \<le> size_list size xs"
  by (induction xs) auto

function walk :: "YNode \<Rightarrow> visit list" where
  "walk (Node kind style tag comment val content) =
     (case kind of
        MappingNode \<Rightarrow>
          VisitMapping (Node kind style tag comment val content) #
          concat (map walk (map snd (mapNodes content)))
      | SequenceNode \<Rightarrow> concat (map walk content)
      | ScalarNode \<Rightarrow> [VisitScalar (Node kind style tag comment val content)]
      | _ \<Rightarrow> [])"
  by pat_completeness auto

lemma size_Content_less:
  "x \<in> set content \<Longrightarrow> size x < size (Node kind style tag comment val content)"
  using size_list_member[of x content] by simp

termination walk
proof (relation "measure size")
  show "wf (measure size)" by simp
next
  fix kind :: Kind and style :: Style and tag comment val :: string
    and content :: "YNode list" and x
  assume "kind = SequenceNode" "x \<in> set content"
  then show "(x, Node kind style tag comment val content) \<in> measure size"
    using size_Content_less[of x content] by simp
next
  fix kind :: Kind and style :: Style and tag comment val :: string
    and content :: "YNode list" and x
  assume "kind = MappingNode" and mem: "x \<in> set (map snd (mapNodes content))"
  from mem have "x \<in> set content" by (rule subsetD[OF mapNodes_snd_subset])
  then show "(x, Node kind style tag comment val content) \<in> measure size"
    using size_Content_less[of x content] by simp
qed

definition visitNode ::
  "(nat \<Rightarrow> nat list) \<Rightarrow> ListSetters \<Rightarrow> visit \<Rightarrow> ListSetters \<times> error option" where
  "visitNode ord ls v =
     (case v of VisitMapping n \<Rightarrow> visitMapping ls n | VisitScalar n \<Rightarrow> visitScalar ord ls n)"

text \<open>Modelled from the spec: \<open>accept\<close>, declared outside \<open>list_setters.go\<close>, makes
  the visits of \<open>walk\<close> in turn and stops at the first one that fails.\<close>

definition accept ::
  "(nat \<Rightarrow> nat list) \<Rightarrow> ListSetters \<Rightarrow> YNode \<Rightarrow> ListSetters \<times> error option" where
  "accept ord ls object = forEach (visitNode ord) ls (walk object)"

section \<open>Package manifest\<close>

text \<open>
  The types of package \<open>kptv1\<close> as far as \<open>FindSettersFromKptfile\<close> reads them. A nil map
  or pointer is \<open>None\<close>.
\<close>

record Function =
  Image :: string
  ConfigPath :: string
  ConfigMap :: "(string \<times> string) list option"

record Pipeline =
  Mutators :: "Function list"

record KptFile =
  Pipeline :: "Pipeline option"

text \<open>
  A document of the set given to \<open>Filter\<close>: its tree, and what the functions of kyaml and
  \<open>kptv1\<close> return for it: the path annotation (empty when there is none), the Kptfile read
  from it or the text of the error, its data map, and its file path or an error.
\<close>

record RNode =
  YNode :: YNode
  PathAnnotation :: string
  ReadFile :: "string + KptFile"
  GetDataMap :: "(string \<times> string) list"
  GetFileAnnotations :: "error + string"

text \<open>Modelled from the spec: the constant \<open>kptv1.KptFileName\<close>, the fixed path by which
  the manifest is known, is declared outside \<open>list_setters.go\<close>.\<close>

definition KptFileName :: string where
  "KptFileName = ''Kptfile''"

fun FindKptfile :: "RNode list \<Rightarrow> error + KptFile" where
  "FindKptfile [] =
     Inl (Discovery (ErrSetterDiscovery
       ''unable to find Kptfile, please include --include-meta-resources flag if a Kptfile is present''))"
| "FindKptfile (node # nodes) =
     (if PathAnnotation node = KptFileName then
        (case ReadFile node of
           Inl err \<Rightarrow> Inl (Failure (''unable to read Kptfile: '' @ err))
         | Inr kf \<Rightarrow> Inr kf)
      else FindKptfile nodes)"

fun findSetterNode :: "RNode list \<Rightarrow> string \<Rightarrow> error + RNode" where
  "findSetterNode [] path =
     Inl (Failure (''file '' @ path @ '' doesn'' @ [CHR 0x27] @
       ''t exist, please ensure the file specified in '' @ [CHR 0x22] @ ''configPath'' @
       [CHR 0x22] @ '' exists and retry''))"
| "findSetterNode (node # nodes) path =
     (if PathAnnotation node = path then Inr node else findSetterNode nodes path)"

text \<open>The loop of \<open>FindSettersFromKptfile\<close> over the mutators of the pipeline.\<close>

fun mutatorSetters :: "RNode list \<Rightarrow> Function list \<Rightarrow> error + (string \<times> string) list" where
  "mutatorSetters nodes [] =
     Inl (Discovery (ErrSetterDiscovery
       ''unable to find apply-setters fn in Kptfile Pipeline.Mutators''))"
| "mutatorSetters nodes (fn # fns) =
     (if \<not> Contains (Image fn) ''apply-setters'' then mutatorSetters nodes fns
      else
        (case ConfigMap fn of
           Some m \<Rightarrow> Inr m
         | None \<Rightarrow>
             if ConfigPath fn \<noteq> [] then
               (case findSetterNode nodes (ConfigPath fn) of
                  Inl err \<Rightarrow> Inl err
                | Inr settersConfig \<Rightarrow> Inr (GetDataMap settersConfig))
             else
               Inl (Discovery (ErrSetterDiscovery
                 ''unable to find ConfigMap or ConfigPath fnConfig for apply-setters''))))"

definition FindSettersFromKptfile :: "RNode list \<Rightarrow> error + (string \<times> string) list" where
  "FindSettersFromKptfile nodes =
     (case FindKptfile nodes of
        Inl err \<Rightarrow> Inl err
      | Inr kf \<Rightarrow>
          (case Pipeline kf of
             None \<Rightarrow>
               Inl (Discovery (ErrSetterDiscovery
                 ''unable to find Pipeline declaration in Kptfile''))
           | Some pl \<Rightarrow> mutatorSetters nodes (Mutators pl)))"

text \<open>
  \<open>getArraySetterValues\<close> reads a setter value as a YAML sequence. The parser
  \<open>yaml.Parse\<close> and the printer \<open>String\<close> of kyaml are parameters.
\<close>

fun elemStrings :: "(YNode \<Rightarrow> error + string) \<Rightarrow> YNode list \<Rightarrow> error + string list" where
  "elemStrings String [] = Inr []"
| "elemStrings String (elem # elems) =
     (case String elem of
        Inl err \<Rightarrow> Inl err
      | Inr setterVal \<Rightarrow>
          (case elemStrings String elems of
             Inl err \<Rightarrow> Inl err
           | Inr setterVals \<Rightarrow> Inr (ReplaceAll setterVal [CHR 0x0A] [] # setterVals)))"

definition getArraySetterValues ::
  "(string \<Rightarrow> error + YNode) \<Rightarrow> (YNode \<Rightarrow> error + string) \<Rightarrow> string \<Rightarrow> error + string list" where
  "getArraySetterValues Parse String sv =
     (case Parse sv of
        Inl err \<Rightarrow> Inl err
      | Inr rn \<Rightarrow>
          (case Elements rn of
             Inl err \<Rightarrow> Inl err
           | Inr elems \<Rightarrow> elemStrings String elems))"

definition addKptfileSetter ::
  "(string \<Rightarrow> error + YNode) \<Rightarrow> (YNode \<Rightarrow> error + string) \<Rightarrow> string \<times> string \<Rightarrow>
   ListSetters \<Rightarrow> ListSetters" where
  "addKptfileSetter Parse String kv ls =
     (let setterName = fst kv; setterValue = snd kv in
      case getArraySetterValues Parse String setterValue of
        Inr v \<Rightarrow>
          ls\<lparr>ArraySetters :=
               AList.update setterName \<lparr>Name_a = setterName, Values_a = v, Count_a = 0\<rparr>
                 (ArraySetters ls)\<rparr>
      | Inl err \<Rightarrow>
          ls\<lparr>ScalarSetters :=
               AList.update setterName
                 \<lparr>Name_s = setterName, Value_s = setterValue, Count_s = 0\<rparr>
                 (ScalarSetters ls)\<rparr>)"

definition addKptfileSetters ::
  "(nat \<Rightarrow> nat list) \<Rightarrow> (string \<Rightarrow> error + YNode) \<Rightarrow> (YNode \<Rightarrow> error + string) \<Rightarrow>
   ListSetters \<Rightarrow> (string \<times> string) list \<Rightarrow> ListSetters" where
  "addKptfileSetters ord Parse String ls s =
     fold (addKptfileSetter Parse String) (rangeMap ord s) ls"

section \<open>Results and the discovery pass\<close>

text \<open>\<open>fmt.Sprint\<close> of a slice of strings: the elements between brackets, separated by
  one space.\<close>

fun joinSpace :: "string list \<Rightarrow> string" where
  "joinSpace [] = []"
| "joinSpace [x] = x"
| "joinSpace (x # y # ys) = x @ '' '' @ joinSpace (y # ys)"

definition Sprint :: "string list \<Rightarrow> string" where
  "Sprint vs = ''['' @ joinSpace vs @ '']''"

definition arrayResult :: "ArraySetter \<Rightarrow> Result" where
  "arrayResult v =
     \<lparr>Name_r = Name_a v, Value_r = Sprint (Values_a v), Type_r = ArraySetterType,
      Count_r = Count_a v\<rparr>"

definition scalarResult :: "ScalarSetter \<Rightarrow> Result" where
  "scalarResult v =
     \<lparr>Name_r = Name_s v, Value_r = Value_s v, Type_r = ScalarSetterType,
      Count_r = Count_s v\<rparr>"

text \<open>\<open>sort.SliceStable\<close> by name is \<^const>\<open>sort_key\<close>, which keeps entries of equal
  name in their order; names compare as Go strings do, character by character.\<close>

definition GetResults :: "(nat \<Rightarrow> nat list) \<Rightarrow> ListSetters \<Rightarrow> Result list" where
  "GetResults ord ls =
     sort_key Name_r
       (map (arrayResult \<circ> snd) (rangeMap ord (ArraySetters ls)) @
        map (scalarResult \<circ> snd) (rangeMap ord (ScalarSetters ls)))"

text \<open>The second loop of \<open>Filter\<close>. The result is the registry, the returned slice of
  documents (\<open>None\<close> for nil) and the returned error.\<close>

fun discoverFromConfig ::
  "(nat \<Rightarrow> nat list) \<Rightarrow> RNode list \<Rightarrow> ListSetters \<Rightarrow> RNode list \<Rightarrow>
   ListSetters \<times> RNode list option \<times> error option" where
  "discoverFromConfig ord nodes ls [] = (ls, Some nodes, None)"
| "discoverFromConfig ord nodes ls (n # rest) =
     (case GetFileAnnotations n of
        Inl err \<Rightarrow> (ls, Some nodes, Some err)
      | Inr path \<Rightarrow>
          (case accept ord (ls\<lparr>filePath := path\<rparr>) (YNode n) of
             (ls', Some err) \<Rightarrow> (ls', None, Some err)
           | (ls', None) \<Rightarrow> discoverFromConfig ord nodes ls' rest))"

text \<open>\<open>Filter\<close>: an \<open>ErrSetterDiscovery\<close> from the manifest becomes a warning, any other
  error is returned at once. A nil map of setters from the manifest has no entries, so
  seeding from it changes nothing.\<close>

definition Filter ::
  "(nat \<Rightarrow> nat list) \<Rightarrow> (string \<Rightarrow> error + YNode) \<Rightarrow> (YNode \<Rightarrow> error + string) \<Rightarrow>
   ListSetters \<Rightarrow> RNode list \<Rightarrow> ListSetters \<times> RNode list option \<times> error option" where
  "Filter ord Parse String ls nodes =
     (case FindSettersFromKptfile nodes of
        Inl (Discovery discoveryErr) \<Rightarrow>
          discoverFromConfig ord nodes (ls\<lparr>Warnings := Warnings ls @ [discoveryErr]\<rparr>) nodes
      | Inl (Failure err) \<Rightarrow> (ls, Some nodes, Some (Failure err))
      | Inr kfSetters \<Rightarrow>
          discoverFromConfig ord nodes (addKptfileSetters ord Parse String ls kfSetters) nodes)"

section \<open>Pieces of an expression and tokens of a pattern\<close>

text \<open>
  The notions used to reason about \<open>setterRegexp\<close>. An expression of the fragment is a list
  of pieces, a quoted character or the group; \<open>expr\<close> writes it out and \<open>replacePieces\<close>
  is \<open>ReplaceAll\<close> by the group, piece by piece. A pattern is a list of tokens, a character
  or a placeholder with its name; \<open>tokens\<close> reads the pattern as \<open>unresolvedSetters\<close>
  does. \<open>weave\<close> is the text that an expression matches with given group texts.
\<close>

datatype piece = Quoted char | Wild

definition pieceText :: "piece \<Rightarrow> string" where
  "pieceText u = (case u of Quoted c \<Rightarrow> (if special c then [CHR 0x5C, c] else [c]) | Wild \<Rightarrow> groupExpr)"

definition expr :: "piece list \<Rightarrow> string" where
  "expr us = concat (map pieceText us)"

fun replacePieces :: "string \<Rightarrow> piece list \<Rightarrow> piece list" where
  "replacePieces old [] = []"
| "replacePieces old (u # us) =
     (if take (length old) (u # us) = map Quoted old
      then Wild # replacePieces old (drop (length old - 1) us)
      else u # replacePieces old us)"

definition pieceInst :: "piece \<Rightarrow> inst" where
  "pieceInst u = (case u of Quoted c \<Rightarrow> Lit c | Wild \<Rightarrow> Group)"

datatype token = Chr char | Hole string

fun tokens :: "string \<Rightarrow> token list" where
  "tokens [] = []"
| "tokens (c # cs) =
     (if HasPrefix (c # cs) ''${'' \<and> CHR ''}'' \<in> set (drop 1 cs) then
        (let name = takeWhile (\<lambda>x. x \<noteq> CHR ''}'') (drop 1 cs)
         in Hole name # tokens (drop (length name + 2) cs))
      else Chr c # tokens cs)"

definition placeholder :: "string \<Rightarrow> string" where
  "placeholder name = ''${'' @ name @ ''}''"

fun holes :: "token list \<Rightarrow> string list" where
  "holes [] = []"
| "holes (Chr c # ts) = holes ts"
| "holes (Hole n # ts) = n # holes ts"

definition tokenPieces :: "string set \<Rightarrow> token \<Rightarrow> piece list" where
  "tokenPieces S t =
     (case t of Chr c \<Rightarrow> [Quoted c]
      | Hole n \<Rightarrow> if n \<in> S then [Wild] else map Quoted (placeholder n))"

fun wellTokenised :: "token list \<Rightarrow> bool" where
  "wellTokenised [] = True"
| "wellTokenised (Chr c # ts) =
     ((c = CHR ''$'' \<longrightarrow>
        (case ts of Chr d # ts' \<Rightarrow> d = CHR ''{'' \<longrightarrow> (\<forall>t\<in>set ts'. \<exists>e. t = Chr e \<and> e \<noteq> CHR ''}'')
         | _ \<Rightarrow> True)) \<and>
      wellTokenised ts)"
| "wellTokenised (Hole m # ts) = (CHR ''}'' \<notin> set m \<and> wellTokenised ts)"

definition pieces :: "string set \<Rightarrow> token list \<Rightarrow> piece list" where
  "pieces S ts = concat (map (tokenPieces S) ts)"

definition tokenInst :: "token \<Rightarrow> inst" where
  "tokenInst t = (case t of Chr c \<Rightarrow> Lit c | Hole n \<Rightarrow> Group)"

fun weave :: "inst list \<Rightarrow> string list \<Rightarrow> string" where
  "weave [] gs = []"
| "weave (Lit c # r) gs = c # weave r gs"
| "weave (Group # r) [] = weave r []"
| "weave (Group # r) (g # gs) = g @ weave r gs"

text \<open>
  Substitution as the spec words it for the round trip: every placeholder of the pattern
  that has a binding is replaced by the bound value, the rest of the pattern stays.
\<close>

fun substitute :: "(string \<times> string) list \<Rightarrow> string \<Rightarrow> string" where
  "substitute b [] = []"
| "substitute b (c # cs) =
     (if HasPrefix (c # cs) ''${'' \<and> CHR ''}'' \<in> set (drop 1 cs) then
        (let name = takeWhile (\<lambda>x. x \<noteq> CHR ''}'') (drop 1 cs)
         in (case map_of b name of Some v \<Rightarrow> v | None \<Rightarrow> ''${'' @ name @ ''}'') @
            substitute b (drop (length name + 2) cs))
      else c # substitute b cs)"

definition tokenText :: "(string \<times> string) list \<Rightarrow> token \<Rightarrow> string" where
  "tokenText b t =
     (case t of Chr c \<Rightarrow> [c]
      | Hole n \<Rightarrow> (case map_of b n of Some v \<Rightarrow> v | None \<Rightarrow> placeholder n))"

section \<open>What a visit resolves to\<close>

text \<open>
  The notions in which the properties below are stated. \<open>scalarBindings\<close> gives the names
  and values that the scalar rule resolves at a node, \<open>fieldSetter\<close> the array setter, if
  any, that the mapping rule resolves at a field, and \<open>fieldValues\<close> the sorted texts of the
  elements of the field. \<open>fieldsVisited\<close> lists the fields of a mapping node that
  \<open>VisitFields\<close> hands over, \<open>visitedFields\<close> those of a list of visits, and
  \<open>fieldsNamed\<close> those among them that resolve to a given array setter; \<open>writtenFields\<close>
  lists the fields as the documents have them. \<open>valuesNamed\<close> lists the values that the
  scalar visits of a list bind to a given name.
\<close>

definition scalarBindings :: "YNode \<Rightarrow> (string \<times> string) list" where
  "scalarBindings object =
     (if Kind object = ScalarNode
      then currentSetterValues (extractSetterPattern (LineComment object)) (Value object)
      else [])"

definition fieldComment :: "YNode \<times> YNode \<Rightarrow> string" where
  "fieldComment node =
     (if Style (snd node) = FlowStyle then LineComment (snd node) else LineComment (fst node))"

definition fieldSetter :: "YNode \<times> YNode \<Rightarrow> string option" where
  "fieldSetter node =
     (if Kind (snd node) = SequenceNode \<and> extractSetterPattern (fieldComment node) \<noteq> []
      then Some (clean (extractSetterPattern (fieldComment node)))
      else None)"

definition fieldValues :: "YNode \<times> YNode \<Rightarrow> string list" where
  "fieldValues node = sort (map Value (Content (snd node)))"

definition fieldsVisited :: "YNode \<Rightarrow> (YNode \<times> YNode) list" where
  "fieldsVisited n =
     concat (map (\<lambda>fieldName. case Field_rn n fieldName of Inr (Some node) \<Rightarrow> [node] | _ \<Rightarrow> [])
       (fieldNames (Content n)))"

fun visitedFields :: "visit list \<Rightarrow> (YNode \<times> YNode) list" where
  "visitedFields [] = []"
| "visitedFields (VisitMapping n # vs) = fieldsVisited n @ visitedFields vs"
| "visitedFields (VisitScalar n # vs) = visitedFields vs"

fun writtenFields :: "visit list \<Rightarrow> (YNode \<times> YNode) list" where
  "writtenFields [] = []"
| "writtenFields (VisitMapping n # vs) = mapNodes (Content n) @ writtenFields vs"
| "writtenFields (VisitScalar n # vs) = writtenFields vs"

definition fieldsNamed :: "string \<Rightarrow> visit list \<Rightarrow> (YNode \<times> YNode) list" where
  "fieldsNamed name vs = filter (\<lambda>node. fieldSetter node = Some name) (visitedFields vs)"

definition valuesNamed :: "string \<Rightarrow> visit list \<Rightarrow> string list" where
  "valuesNamed name vs =
     concat (map (\<lambda>v. case v of
                        VisitScalar n \<Rightarrow>
                          (case map_of (scalarBindings n) name of Some x \<Rightarrow> [x] | None \<Rightarrow> [])
                      | VisitMapping n \<Rightarrow> []) vs)"

text \<open>The visits of a whole document set, document by document.\<close>

definition walkAll :: "RNode list \<Rightarrow> visit list" where
  "walkAll nodes = concat (map (\<lambda>n. walk (YNode n)) nodes)"


text \<open>The two branches of the mapping rule as one update, and the entry that a list of
  fields resolving to one array setter leaves in the array mapping.\<close>

definition addArray :: "string \<Rightarrow> string list \<Rightarrow> ListSetters \<Rightarrow> ListSetters" where
  "addArray name vals ls =
     (case map_of (ArraySetters ls) name of
        Some a \<Rightarrow>
          ls\<lparr>ArraySetters :=
               AList.update name (a\<lparr>Count_a := Count_a a + 1\<rparr>) (ArraySetters ls)\<rparr>
      | None \<Rightarrow>
          ls\<lparr>ArraySetters :=
               AList.update name \<lparr>Name_a = name, Values_a = vals, Count_a = 1\<rparr>
                 (ArraySetters ls)\<rparr>)"

definition countedArray ::
  "string \<Rightarrow> (YNode \<times> YNode) list \<Rightarrow> ArraySetter option \<Rightarrow> ArraySetter option" where
  "countedArray name hits e =
     (case hits of
        [] \<Rightarrow> e
      | first # rest \<Rightarrow>
          Some (case e of
                  Some a \<Rightarrow> a\<lparr>Count_a := Count_a a + int (length hits)\<rparr>
                | None \<Rightarrow>
                    \<lparr>Name_a = name, Values_a = fieldValues first, Count_a = int (length hits)\<rparr>))"

text \<open>The entry that a list of values bound to one name leaves in the scalar mapping.\<close>

definition countedScalar ::
  "string \<Rightarrow> string list \<Rightarrow> ScalarSetter option \<Rightarrow> ScalarSetter option" where
  "countedScalar name hits e =
     (case hits of
        [] \<Rightarrow> e
      | first # rest \<Rightarrow>
          Some (case e of
                  Some s \<Rightarrow> s\<lparr>Count_s := Count_s s + int (length hits)\<rparr>
                | None \<Rightarrow> \<lparr>Name_s = name, Value_s = first, Count_s = int (length hits)\<rparr>))"

text \<open>
  The registries that the operations build from \<open>New\<close>: in each mapping the keys are
  distinct and every entry carries its key as its name. \<open>sameSetters\<close> relates two
  registries that hold the same entries, whatever the order in which the maps list them.
\<close>

definition wellFormed :: "ListSetters \<Rightarrow> bool" where
  "wellFormed ls \<longleftrightarrow>
     distinct (map fst (ScalarSetters ls)) \<and> distinct (map fst (ArraySetters ls)) \<and>
     list_all (\<lambda>kv. Name_s (snd kv) = fst kv) (ScalarSetters ls) \<and>
     list_all (\<lambda>kv. Name_a (snd kv) = fst kv) (ArraySetters ls)"

definition sameSetters :: "ListSetters \<Rightarrow> ListSetters \<Rightarrow> bool" where
  "sameSetters a b \<longleftrightarrow>
     map_of (ScalarSetters a) = map_of (ScalarSetters b) \<and>
     map_of (ArraySetters a) = map_of (ArraySetters b) \<and>
     Warnings a = Warnings b \<and> filePath a = filePath b"

section \<open>Example documents\<close>

text \<open>
  A document with a scalar setter, an array setter written in flow style and a pattern of
  two placeholders; a manifest document for a given Kptfile; a Kptfile whose second mutator
  applies setters; and a parser and a printer that read the sequence \<^verbatim>\<open>[b, a]\<close> and
  the null value \<^verbatim>\<open>null\<close> and print a scalar as its text and a line feed.
\<close>

definition scalarLeaf :: "string \<Rightarrow> string \<Rightarrow> YNode" where
  "scalarLeaf val comment = Node ScalarNode PlainStyle ''!!str'' comment val []"

definition exampleTree :: YNode where
  "exampleTree =
     Node MappingNode PlainStyle ''!!map'' [] []
       [scalarLeaf ''replicas'' [], scalarLeaf ''3'' ''# kpt-set: ${replicas}'',
        scalarLeaf ''zones'' [],
        Node SequenceNode FlowStyle ''!!seq'' ''# kpt-set: ${zones}'' []
          [scalarLeaf ''b'' [], scalarLeaf ''a'' []],
        scalarLeaf ''image'' [], scalarLeaf ''nginx:1.14'' ''# kpt-set: ${image}:${tag}'']"

definition exampleDoc :: RNode where
  "exampleDoc =
     \<lparr>YNode = exampleTree, PathAnnotation = ''deploy.yaml'', ReadFile = Inl ''not a Kptfile'',
      GetDataMap = [], GetFileAnnotations = Inr ''deploy.yaml''\<rparr>"

definition kptfileDoc :: "KptFile \<Rightarrow> RNode" where
  "kptfileDoc kf =
     \<lparr>YNode = Node MappingNode PlainStyle ''!!map'' [] [] [], PathAnnotation = ''Kptfile'',
      ReadFile = Inr kf, GetDataMap = [], GetFileAnnotations = Inr ''Kptfile''\<rparr>"

definition applySetters :: "string \<Rightarrow> (string \<times> string) list option \<Rightarrow> KptFile" where
  "applySetters path config =
     \<lparr>Pipeline = Some \<lparr>Mutators =
        [\<lparr>Image = ''gcr.io/kpt-fn/set-labels:v0.1'', ConfigPath = [], ConfigMap = Some []\<rparr>,
         \<lparr>Image = ''gcr.io/kpt-fn/apply-setters:v0.1'', ConfigPath = path,
          ConfigMap = config\<rparr>]\<rparr>\<rparr>"

definition exampleParse :: "string \<Rightarrow> error + YNode" where
  "exampleParse sv =
     (if sv = ''[b, a]'' then
        Inr (Node SequenceNode FlowStyle ''!!seq'' [] [] [scalarLeaf ''b'' [], scalarLeaf ''a'' []])
      else if sv = ''null'' then Inr (Node ScalarNode PlainStyle ''!!null'' [] ''null'' [])
      else Inr (scalarLeaf sv []))"

definition exampleString :: "YNode \<Rightarrow> error + string" where
  "exampleString n = Inr (Value n @ [CHR 0x0A])"

text \<open>A document whose mapping has the key \<^verbatim>\<open>zones\<close> twice: the first field carries the
  marker of the array setter \<^verbatim>\<open>zones\<close> on its key, the second field carries none.\<close>

definition repeatedKeyDoc :: RNode where
  "repeatedKeyDoc =
     \<lparr>YNode =
        Node MappingNode PlainStyle ''!!map'' [] []
          [scalarLeaf ''zones'' ''# kpt-set: ${zones}'',
           Node SequenceNode PlainStyle ''!!seq'' [] [] [scalarLeaf ''a'' []],
           scalarLeaf ''zones'' [],
           Node SequenceNode PlainStyle ''!!seq'' [] [] [scalarLeaf ''b'' []]],
      PathAnnotation = ''twice.yaml'', ReadFile = Inl ''not a Kptfile'',
      GetDataMap = [], GetFileAnnotations = Inr ''twice.yaml''\<rparr>"


section \<open>Properties of the resolver and of the marker parser\<close>

lemma bindValues_empty_value: "[] \<in> snd ` set kvs \<Longrightarrow> bindValues kvs res = []"
  by (induction kvs res rule: bindValues.induct) auto

lemma dropWhile_all: "\<forall>x\<in>set w. P x \<Longrightarrow> dropWhile P w = []"
  by (induction w) auto

lemma TrimSpace_all_space: "\<forall>x\<in>set w. isSpace x \<Longrightarrow> TrimSpace w = []"
  by (simp add: TrimSpace_def dropWhile_all)

lemma iterOrder_0: "iterOrder ord \<Longrightarrow> ord 0 = []"
  by (auto simp: iterOrder_def dest: spec[of _ 0])

lemma iterOrder_upt: "iterOrder (\<lambda>n. [0..<n])"
  by (simp add: iterOrder_def)

lemma iterOrder_rev_upt: "iterOrder (\<lambda>n. rev [0..<n])"
  by (simp add: iterOrder_def)

text \<open>
  C5: whenever a group of the match found by \<open>currentSetterValues\<close> has the empty text, the
  result is the empty map, whatever the other groups hold. The pattern
  \<^verbatim>\<open>foo.${a}.${b}\<close> against the value \<^verbatim>\<open>foo..bar\<close> is such a case.
\<close>

theorem empty_capture_rejected:
  "(Compile (setterRegexp pattern) = Some r \<longrightarrow>
    FindStringSubmatch r value = Some (whole # setterValues) \<longrightarrow>
    [] \<in> set setterValues \<longrightarrow>
    currentSetterValues pattern value = []) \<and>
   currentSetterValues ''foo.${a}.${b}'' ''foo..bar'' = []"
proof (intro conjI impI)
  assume r: "Compile (setterRegexp pattern) = Some r"
    and m: "FindStringSubmatch r value = Some (whole # setterValues)"
    and e: "[] \<in> set setterValues"
  show "currentSetterValues pattern value = []"
  proof (cases "length (unresolvedSetters pattern) = length setterValues")
    case True
    then have "snd ` set (zip (unresolvedSetters pattern) setterValues) = set setterValues"
      by (metis map_snd_zip set_map)
    with e have "bindValues (zip (unresolvedSetters pattern) setterValues) [] = []"
      by (simp add: bindValues_empty_value)
    with r m True show ?thesis by (simp add: currentSetterValues_def)
  next
    case False
    with r m show ?thesis by (simp add: currentSetterValues_def)
  qed
next
  show "currentSetterValues ''foo.${a}.${b}'' ''foo..bar'' = []" by code_simp
qed

theorem empty_capture_rejected_witness:
  "Compile (setterRegexp ''foo.${a}.${b}'') =
     Some [Lit CHR ''f'', Lit CHR ''o'', Lit CHR ''o'', Lit CHR ''.'', Group, Lit CHR ''.'', Group] \<and>
   FindStringSubmatch
     [Lit CHR ''f'', Lit CHR ''o'', Lit CHR ''o'', Lit CHR ''.'', Group, Lit CHR ''.'', Group]
     ''foo..bar'' = Some [''foo..bar'', [], ''bar''] \<and>
   [] \<in> set [[], ''bar''] \<and>
   currentSetterValues ''foo.${a}.${b}'' ''foo..bar'' = []"
proof -
  have r: "Compile (setterRegexp ''foo.${a}.${b}'') =
     Some [Lit CHR ''f'', Lit CHR ''o'', Lit CHR ''o'', Lit CHR ''.'', Group, Lit CHR ''.'', Group]"
    by code_simp
  have m: "FindStringSubmatch
     [Lit CHR ''f'', Lit CHR ''o'', Lit CHR ''o'', Lit CHR ''.'', Group, Lit CHR ''.'', Group]
     ''foo..bar'' = Some [''foo..bar'', [], ''bar'']"
    by code_simp
  have e: "[] \<in> set [[], ''bar'']" by simp
  from empty_capture_rejected[THEN conjunct1, rule_format, OF r m e]
  have "currentSetterValues ''foo.${a}.${b}'' ''foo..bar'' = []" .
  with r m e show ?thesis by blast
qed

text \<open>
  C10: a comment that does not start with the marker \<^verbatim>\<open># kpt-set: \<close>, trailing space
  included, or that holds only white space behind the marker, gives the empty pattern, and
  the field is skipped: the scalar rule and the mapping rule both return the registry as it
  was. The comment \<^verbatim>\<open># kpt-set:${x}\<close>, without the space, is such a comment.
\<close>

theorem unmarked_field_skipped:
  "(\<not> HasPrefix c SetterCommentIdentifier \<or>
      (\<exists>w. c = SetterCommentIdentifier @ w \<and> (\<forall>x\<in>set w. isSpace x))) \<longrightarrow>
     extractSetterPattern c = [] \<and>
     (LineComment object = c \<longrightarrow> visitScalar ord ls object = (ls, None)) \<and>
     ((if Style (snd node) = FlowStyle then LineComment (snd node) else LineComment (fst node)) = c
        \<longrightarrow> visitField ls node = (ls, None))"
proof (intro impI)
  assume "\<not> HasPrefix c SetterCommentIdentifier \<or>
      (\<exists>w. c = SetterCommentIdentifier @ w \<and> (\<forall>x\<in>set w. isSpace x))"
  then have e: "extractSetterPattern c = []"
    by (auto simp: extractSetterPattern_def TrimPrefix_def HasPrefix_def TrimSpace_all_space)
  have s: "visitScalar ord ls object = (ls, None)" if "LineComment object = c"
    using that e by (simp add: visitScalar_def)
  have f: "visitField ls node = (ls, None)"
    if "(if Style (snd node) = FlowStyle then LineComment (snd node) else LineComment (fst node)) = c"
    using that e by (simp add: visitField_def Let_def Elements_def ErrorIfInvalid_def)
  from e s f show "extractSetterPattern c = [] \<and>
     (LineComment object = c \<longrightarrow> visitScalar ord ls object = (ls, None)) \<and>
     ((if Style (snd node) = FlowStyle then LineComment (snd node) else LineComment (fst node)) = c
        \<longrightarrow> visitField ls node = (ls, None))"
    by blast
qed

theorem unmarked_field_skipped_witness:
  "\<not> HasPrefix ''# kpt-set:${x}'' SetterCommentIdentifier \<and>
   extractSetterPattern ''# kpt-set:${x}'' = [] \<and>
   visitScalar (\<lambda>n. [0..<n]) New (Node ScalarNode PlainStyle ''!!str'' ''# kpt-set:${x}'' ''3'' []) =
     (New, None) \<and>
   visitField New
     (Node ScalarNode PlainStyle ''!!str'' ''# kpt-set:${x}'' ''items'' [],
      Node SequenceNode PlainStyle ''!!seq'' [] [] [Node ScalarNode PlainStyle ''!!str'' [] ''a'' []]) = (New, None)"
proof -
  have h: "\<not> HasPrefix ''# kpt-set:${x}'' SetterCommentIdentifier"
    by (simp add: HasPrefix_def SetterCommentIdentifier_def)
  note t = unmarked_field_skipped[rule_format, OF disjI1, OF h]
  have 1: "extractSetterPattern ''# kpt-set:${x}'' = []" using t by blast
  have 2: "visitScalar (\<lambda>n. [0..<n]) New (Node ScalarNode PlainStyle ''!!str'' ''# kpt-set:${x}'' ''3'' []) =
     (New, None)"
    using t[of "Node ScalarNode PlainStyle ''!!str'' ''# kpt-set:${x}'' ''3'' []"] by simp
  have 3: "visitField New
     (Node ScalarNode PlainStyle ''!!str'' ''# kpt-set:${x}'' ''items'' [],
      Node SequenceNode PlainStyle ''!!seq'' [] [] [Node ScalarNode PlainStyle ''!!str'' [] ''a'' []]) = (New, None)"
    using t[of _ _ _ "(Node ScalarNode PlainStyle ''!!str'' ''# kpt-set:${x}'' ''items'' [],
      Node SequenceNode PlainStyle ''!!seq'' [] [] [Node ScalarNode PlainStyle ''!!str'' [] ''a'' []])"] by simp
  from h 1 2 3 show ?thesis by blast
qed

lemma replaceNonEmpty_self: "old \<noteq> [] \<Longrightarrow> replaceNonEmpty old new old = new"
  by (cases old) (simp_all add: HasPrefix_def)

lemma Compile_groupExpr: "Compile groupExpr = Some [Group]"
  by code_simp

lemma QuoteMeta_Nil_iff: "QuoteMeta s = [] \<longleftrightarrow> s = []"
  by (cases s) (auto simp: QuoteMeta_def)

lemma setterRegexp_single:
  assumes "unresolvedSetters pattern = [pattern]"
  shows "setterRegexp pattern = groupExpr"
proof -
  from assms have "pattern \<noteq> []" by auto
  then have "QuoteMeta pattern \<noteq> []" by (simp add: QuoteMeta_Nil_iff)
  with assms show ?thesis
    by (simp add: setterRegexp_def ReplaceAll_def replaceNonEmpty_self)
qed

lemma dotRun_no_newline: "CHR 0x0A \<notin> set s \<Longrightarrow> dotRun s = length s"
  by (induction s) (auto simp: dotRun_def)

lemma matchHere_Group_all: "CHR 0x0A \<notin> set s \<Longrightarrow> matchHere [Group] s = Some (s, [s])"
  by (simp add: dotRun_no_newline)

lemma FindStringSubmatch_Group_all:
  "CHR 0x0A \<notin> set s \<Longrightarrow> FindStringSubmatch [Group] s = Some [s, s]"
  by (cases s) (simp_all add: dotRun_no_newline del: matchHere.simps add: matchHere_Group_all)

lemma csv_single:
  assumes "unresolvedSetters pattern = [pattern]" "value \<noteq> []" "CHR 0x0A \<notin> set value"
  shows "currentSetterValues pattern value = [(clean pattern, value)]"
  using assms
  by (simp add: currentSetterValues_def setterRegexp_single Compile_groupExpr
      FindStringSubmatch_Group_all)

lemma unresolvedSetters_single:
  assumes "CHR ''}'' \<notin> set name"
  shows "unresolvedSetters (''${'' @ name @ ''}'') = [''${'' @ name @ ''}'']"
proof -
  have "takeWhile (\<lambda>x. x \<noteq> CHR ''}'') (name @ ''}'') = name"
    using assms by (induction name) auto
  then show ?thesis by (simp add: HasPrefix_def)
qed

lemma clean_placeholder: "CHR ''}'' \<notin> set name \<Longrightarrow> clean (''${'' @ name @ ''}'') = name"
  by (simp add: clean_def TrimSpace_def isSpace_def TrimPrefix_def TrimSuffix_def HasPrefix_def HasSuffix_def)


section \<open>Properties of the generated expression\<close>

lemma HasPrefix_iff: "HasPrefix s p \<longleftrightarrow> (\<exists>t. s = p @ t)"
  unfolding HasPrefix_def by (metis append_eq_conv_conj append_take_drop_id)

lemma HasPrefix_append [simp]: "HasPrefix (p @ t) p"
  by (simp add: HasPrefix_def)

lemma HasPrefix_Cons: "HasPrefix (c # s) (d # p) \<longleftrightarrow> c = d \<and> HasPrefix s p"
  by (auto simp: HasPrefix_def)

lemma HasPrefix_Nil [simp]: "HasPrefix s []"
  by (simp add: HasPrefix_def)

lemma HasPrefix_Nil_left: "HasPrefix [] p \<longleftrightarrow> p = []"
  by (auto simp: HasPrefix_def)

lemma QuoteMeta_expr: "QuoteMeta s = expr (map Quoted s)"
  by (simp add: QuoteMeta_def expr_def pieceText_def comp_def)

lemma expr_Nil [simp]: "expr [] = []"
  by (simp add: expr_def)

lemma expr_Cons: "expr (u # us) = pieceText u @ expr us"
  by (simp add: expr_def)

lemma expr_append: "expr (us @ vs) = expr us @ expr vs"
  by (simp add: expr_def)

lemma special_backslash: "special (CHR 0x5C)"
  by (simp add: special_def)

lemma special_dollar: "special (CHR ''$'')"
  by (simp add: special_def)

lemma special_paren: "special (CHR ''('')"
  by (simp add: special_def)

lemma pieceText_hd:
  "\<exists>c t. pieceText u = c # t \<and> c \<noteq> CHR ''$'' \<and>
     (c = CHR 0x5C \<or> c = CHR ''('' \<or> \<not> special c)"
  by (cases u) (auto simp: pieceText_def groupExpr_def special_def)

lemma expr_no_dollar_hd: "\<not> HasPrefix (expr us) (CHR ''$'' # p)"
proof (cases us)
  case Nil
  then show ?thesis by (simp add: HasPrefix_Nil_left)
next
  case (Cons u us')
  from pieceText_hd[of u] obtain c t where "pieceText u = c # t" "c \<noteq> CHR ''$''" by blast
  with Cons show ?thesis by (simp add: expr_Cons HasPrefix_Cons)
qed

text \<open>Pieces form a prefix code.\<close>

lemma piece_prefix_code:
  assumes "pieceText u @ s = pieceText (Quoted c) @ t"
  shows "u = Quoted c \<and> s = t"
proof (cases u)
  case (Quoted d)
  show ?thesis
  proof (cases "special d")
    case True
    note sd = this
    show ?thesis
    proof (cases "special c")
      case True
      with sd Quoted assms show ?thesis by (simp add: pieceText_def)
    next
      case False
      with sd Quoted assms have "c = CHR 0x5C" by (simp add: pieceText_def)
      with False special_backslash show ?thesis by simp
    qed
  next
    case False
    note nd = this
    show ?thesis
    proof (cases "special c")
      case True
      with nd Quoted assms have "d = CHR 0x5C" by (simp add: pieceText_def)
      with nd special_backslash show ?thesis by simp
    next
      case False
      with nd Quoted assms show ?thesis by (simp add: pieceText_def)
    qed
  qed
next
  case Wild
  show ?thesis
  proof (cases "special c")
    case True
    with Wild assms show ?thesis by (simp add: pieceText_def groupExpr_def)
  next
    case False
    with Wild assms have "c = CHR ''(''" by (simp add: pieceText_def groupExpr_def)
    with False special_paren show ?thesis by simp
  qed
qed

lemma expr_prefix_pieces:
  "expr us = expr (map Quoted old) @ t \<Longrightarrow>
   take (length old) us = map Quoted old \<and> expr (drop (length old) us) = t"
proof (induction old arbitrary: us)
  case Nil
  then show ?case by simp
next
  case (Cons c old)
  show ?case
  proof (cases us)
    case Nil
    with Cons.prems show ?thesis by (cases "special c") (simp_all add: expr_Cons pieceText_def)
  next
    case (Cons u us')
    with Cons.prems have "pieceText u @ expr us' = pieceText (Quoted c) @ (expr (map Quoted old) @ t)"
      by (simp add: expr_Cons)
    from piece_prefix_code[OF this] have u: "u = Quoted c" and r: "expr us' = expr (map Quoted old) @ t"
      by simp_all
    from Cons.IH[OF r] u Cons show ?thesis by simp
  qed
qed

lemma HasPrefix_expr:
  "HasPrefix (expr us) (expr (map Quoted old)) \<longleftrightarrow> take (length old) us = map Quoted old"
proof
  assume "HasPrefix (expr us) (expr (map Quoted old))"
  then obtain t where "expr us = expr (map Quoted old) @ t" by (auto simp: HasPrefix_iff)
  then show "take (length old) us = map Quoted old" using expr_prefix_pieces by blast
next
  assume "take (length old) us = map Quoted old"
  then have "us = map Quoted old @ drop (length old) us" by (metis append_take_drop_id)
  then have "expr us = expr (map Quoted old) @ expr (drop (length old) us)"
    by (metis expr_append)
  then show "HasPrefix (expr us) (expr (map Quoted old))" by (simp add: HasPrefix_iff)
qed

lemma replaceNonEmpty_match:
  "old \<noteq> [] \<Longrightarrow> replaceNonEmpty old new (old @ t) = new @ replaceNonEmpty old new t"
  by (cases old) (simp_all add: HasPrefix_Cons)

lemma replaceNonEmpty_step:
  "\<not> HasPrefix (c # t) old \<Longrightarrow> replaceNonEmpty old new (c # t) = c # replaceNonEmpty old new t"
  by simp

lemma replaceNonEmpty_skip:
  "\<forall>c\<in>set w. c \<noteq> d \<Longrightarrow>
   replaceNonEmpty (d # old) new (w @ t) = w @ replaceNonEmpty (d # old) new t"
  by (induction w) (auto simp: HasPrefix_Cons)

lemma replaceNonEmpty_piece:
  assumes "\<not> HasPrefix (pieceText u @ expr us) (CHR 0x5C # CHR ''$'' # old)"
  shows "replaceNonEmpty (CHR 0x5C # CHR ''$'' # old) new (pieceText u @ expr us) =
     pieceText u @ replaceNonEmpty (CHR 0x5C # CHR ''$'' # old) new (expr us)"
proof (cases u)
  case (Quoted c)
  show ?thesis
  proof (cases "special c")
    case True
    have "\<not> HasPrefix (c # expr us) (CHR 0x5C # CHR ''$'' # old)"
      using expr_no_dollar_hd[of us old] by (simp add: HasPrefix_Cons)
    with True Quoted assms show ?thesis
      by (simp add: pieceText_def del: replaceNonEmpty.simps add: replaceNonEmpty_step)
  next
    case False
    with Quoted assms show ?thesis
      by (simp add: pieceText_def del: replaceNonEmpty.simps add: replaceNonEmpty_step)
  qed
next
  case Wild
  have "\<forall>c\<in>set groupExpr. c \<noteq> CHR 0x5C" by (simp add: groupExpr_def)
  with Wild show ?thesis
    by (simp add: pieceText_def replaceNonEmpty_skip del: replaceNonEmpty.simps)
qed

lemma QuoteMeta_dollar:
  "QuoteMeta (CHR ''$'' # old') = CHR 0x5C # CHR ''$'' # QuoteMeta old'"
  by (simp add: QuoteMeta_def special_dollar)

lemma replace_pieces:
  "replaceNonEmpty (QuoteMeta (CHR ''$'' # old')) groupExpr (expr us) =
     expr (replacePieces (CHR ''$'' # old') us)"
proof (induction us rule: length_induct)
  case (1 us)
  let ?old = "CHR ''$'' # old'"
  show ?case
  proof (cases us)
    case Nil
    then show ?thesis by simp
  next
    case (Cons u us')
    show ?thesis
    proof (cases "take (length ?old) us = map Quoted ?old")
      case True
      then have us: "us = map Quoted ?old @ drop (length ?old) us"
        by (metis append_take_drop_id)
      have "expr us = QuoteMeta ?old @ expr (drop (length ?old) us)"
        by (subst us) (simp only: expr_append QuoteMeta_expr)
      moreover have "QuoteMeta ?old \<noteq> []" by (simp add: QuoteMeta_dollar)
      ultimately have "replaceNonEmpty (QuoteMeta ?old) groupExpr (expr us) =
          groupExpr @ replaceNonEmpty (QuoteMeta ?old) groupExpr (expr (drop (length ?old) us))"
        by (simp add: replaceNonEmpty_match)
      also have "replaceNonEmpty (QuoteMeta ?old) groupExpr (expr (drop (length ?old) us)) =
          expr (replacePieces ?old (drop (length ?old) us))"
        using "1.IH" Cons by simp
      finally show ?thesis using True Cons by (simp add: expr_Cons pieceText_def)
    next
      case False
      then have "\<not> HasPrefix (expr us) (QuoteMeta ?old)"
        by (simp only: QuoteMeta_expr HasPrefix_expr not_False_eq_True)
      with Cons have "\<not> HasPrefix (pieceText u @ expr us') (CHR 0x5C # CHR ''$'' # QuoteMeta old')"
        by (simp add: expr_Cons QuoteMeta_dollar)
      from replaceNonEmpty_piece[OF this, of groupExpr]
      have "replaceNonEmpty (QuoteMeta ?old) groupExpr (expr us) =
          pieceText u @ replaceNonEmpty (QuoteMeta ?old) groupExpr (expr us')"
        using Cons by (simp add: expr_Cons QuoteMeta_dollar)
      also have "replaceNonEmpty (QuoteMeta ?old) groupExpr (expr us') =
          expr (replacePieces ?old us')"
        using "1.IH" Cons by simp
      finally have "replaceNonEmpty (QuoteMeta ?old) groupExpr (expr us) =
          expr (u # replacePieces ?old us')" by (simp add: expr_Cons)
      moreover have "replacePieces ?old us = u # replacePieces ?old us'"
        using False unfolding Cons by (simp only: replacePieces.simps if_False)
      ultimately show ?thesis by simp
    qed
  qed
qed

lemma ReplaceAll_pieces:
  "ReplaceAll (expr us) (QuoteMeta (CHR ''$'' # old')) groupExpr =
     expr (replacePieces (CHR ''$'' # old') us)"
proof -
  have "QuoteMeta (CHR ''$'' # old') \<noteq> []" by (simp add: QuoteMeta_dollar)
  then show ?thesis by (simp only: ReplaceAll_def replace_pieces if_False)
qed

lemma unresolvedSetters_dollar:
  "ur \<in> set (unresolvedSetters p) \<Longrightarrow> \<exists>old'. ur = CHR ''$'' # old'"
  by (induction p rule: unresolvedSetters.induct) (auto simp: Let_def split: if_splits)

lemma fold_ReplaceAll_pieces:
  "(\<forall>ur\<in>set urs. \<exists>old'. ur = CHR ''$'' # old') \<Longrightarrow>
   fold (\<lambda>setterName p. ReplaceAll p (QuoteMeta setterName) groupExpr) urs (expr us) =
     expr (fold replacePieces urs us)"
proof (induction urs arbitrary: us)
  case Nil
  then show ?case by simp
next
  case (Cons ur urs)
  then obtain old' where "ur = CHR ''$'' # old'" by auto
  with Cons show ?case by (simp add: ReplaceAll_pieces)
qed

lemma setterRegexp_pieces:
  "setterRegexp pattern = expr (fold replacePieces (unresolvedSetters pattern) (map Quoted pattern))"
proof -
  have "\<forall>ur\<in>set (unresolvedSetters pattern). \<exists>old'. ur = CHR ''$'' # old'"
    by (simp add: unresolvedSetters_dollar)
  from fold_ReplaceAll_pieces[OF this, of "map Quoted pattern"] show ?thesis
    by (simp only: setterRegexp_def QuoteMeta_expr[of pattern])
qed

lemma Compile_expr: "Compile (expr us) = Some (map pieceInst us)"
proof (induction us)
  case Nil
  then show ?case by simp
next
  case (Cons u us)
  show ?case
  proof (cases u)
    case (Quoted c)
    show ?thesis
    proof (cases "special c")
      case True
      with Quoted Cons show ?thesis
        by (simp add: expr_Cons pieceText_def pieceInst_def HasPrefix_Cons groupExpr_def)
    next
      case False
      then have "c \<noteq> CHR ''(''" "c \<noteq> CHR 0x5C" using special_paren special_backslash by auto
      with False Quoted Cons show ?thesis
        by (simp add: expr_Cons pieceText_def pieceInst_def HasPrefix_Cons groupExpr_def)
    qed
  next
    case Wild
    have "HasPrefix (groupExpr @ expr us) groupExpr" by simp
    moreover have "drop 8 (tl (groupExpr @ expr us)) = expr us" by (simp add: groupExpr_def)
    moreover have "groupExpr @ expr us = hd groupExpr # tl (groupExpr @ expr us)"
      by (simp add: groupExpr_def)
    ultimately have "Compile (groupExpr @ expr us) = map_option ((#) Group) (Compile (expr us))"
      by (metis Compile.simps(2))
    with Wild Cons show ?thesis by (simp add: expr_Cons pieceText_def pieceInst_def)
  qed
qed

lemma Compile_setterRegexp: "\<exists>r. Compile (setterRegexp pattern) = Some r"
  by (simp add: setterRegexp_pieces Compile_expr)

lemma tokens_hole:
  "HasPrefix (c # cs) ''${'' \<and> CHR ''}'' \<in> set (drop 1 cs) \<Longrightarrow>
   tokens (c # cs) =
     Hole (takeWhile (\<lambda>x. x \<noteq> CHR ''}'') (drop 1 cs)) #
     tokens (drop (length (takeWhile (\<lambda>x. x \<noteq> CHR ''}'') (drop 1 cs)) + 2) cs)"
  by (simp add: Let_def)

lemma tokens_chr:
  "\<not> (HasPrefix (c # cs) ''${'' \<and> CHR ''}'' \<in> set (drop 1 cs)) \<Longrightarrow>
   tokens (c # cs) = Chr c # tokens cs"
  by auto

lemma tokenPieces_simps [simp]:
  "tokenPieces S (Chr c) = [Quoted c]"
  "tokenPieces S (Hole n) = (if n \<in> S then [Wild] else map Quoted (placeholder n))"
  by (simp_all add: tokenPieces_def)

lemma unresolvedSetters_tokens:
  "unresolvedSetters p = map placeholder (holes (tokens p))"
  by (induction p rule: tokens.induct) (simp_all add: Let_def placeholder_def)

lemma tokens_no_brace: "CHR ''}'' \<notin> set s \<Longrightarrow> tokens s = map Chr s"
proof (induction s)
  case Nil
  then show ?case by simp
next
  case (Cons c s)
  then have "CHR ''}'' \<notin> set (drop 1 s)" by (meson in_set_dropD list.set_intros(2))
  with Cons show ?case by simp
qed

lemma split_at_brace:
  "CHR ''}'' \<in> set s \<Longrightarrow>
   s = takeWhile (\<lambda>x. x \<noteq> CHR ''}'') s @ CHR ''}'' #
       drop (length (takeWhile (\<lambda>x. x \<noteq> CHR ''}'') s) + 1) s"
  by (induction s) auto

lemma hole_split:
  assumes "HasPrefix (c # cs) ''${'' \<and> CHR ''}'' \<in> set (drop 1 cs)"
  shows "c # cs = placeholder (takeWhile (\<lambda>x. x \<noteq> CHR ''}'') (drop 1 cs)) @
     drop (length (takeWhile (\<lambda>x. x \<noteq> CHR ''}'') (drop 1 cs)) + 2) cs"
proof -
  let ?name = "takeWhile (\<lambda>x. x \<noteq> CHR ''}'') (drop 1 cs)"
  from assms obtain cs' where cs: "c = CHR ''$''" "cs = CHR ''{'' # cs'" 
    by (cases cs) (auto simp: HasPrefix_Cons)
  with assms have b: "CHR ''}'' \<in> set cs'" by simp
  from split_at_brace[OF b] cs
  have sp: "cs' = ?name @ CHR ''}'' # drop (length ?name + 1) cs'" by simp
  have "c # cs = CHR ''$'' # CHR ''{'' # cs'" using cs by simp
  also have "\<dots> = CHR ''$'' # CHR ''{'' # (?name @ CHR ''}'' # drop (length ?name + 1) cs')"
    by (rule arg_cong[OF sp])
  also have "\<dots> = placeholder ?name @ drop (length ?name + 2) cs"
    using cs by (simp add: placeholder_def)
  finally show ?thesis .
qed

lemma tokens_pieces: "map Quoted p = concat (map (tokenPieces {}) (tokens p))"
proof (induction p rule: tokens.induct)
  case 1
  then show ?case by simp
next
  case (2 c cs)
  show ?case
  proof (cases "HasPrefix (c # cs) ''${'' \<and> CHR ''}'' \<in> set (drop 1 cs)")
    case True
    let ?name = "takeWhile (\<lambda>x. x \<noteq> CHR ''}'') (drop 1 cs)"
    have "map Quoted (c # cs) =
        map Quoted (placeholder ?name) @ map Quoted (drop (length ?name + 2) cs)"
      using hole_split[OF True] by (metis map_append)
    also have "map Quoted (drop (length ?name + 2) cs) =
        concat (map (tokenPieces {}) (tokens (drop (length ?name + 2) cs)))"
      using "2.IH"(1)[OF True refl] .
    finally show ?thesis by (simp only: tokens_hole[OF True]) simp
  next
    case False
    have "map Quoted (c # cs) = Quoted c # map Quoted cs" by simp
    also have "map Quoted cs = concat (map (tokenPieces {}) (tokens cs))"
      using "2.IH"(2)[OF False] .
    finally show ?thesis by (simp only: tokens_chr[OF False]) simp
  qed
qed

lemma wellTokenised_tokens: "wellTokenised (tokens p)"
proof (induction p rule: tokens.induct)
  case 1
  then show ?case by simp
next
  case (2 c cs)
  show ?case
  proof (cases "HasPrefix (c # cs) ''${'' \<and> CHR ''}'' \<in> set (drop 1 cs)")
    case True
    have "CHR ''}'' \<notin> set (takeWhile (\<lambda>x. x \<noteq> CHR ''}'') (drop 1 cs))"
      by (auto dest: set_takeWhileD)
    with "2.IH"(1)[OF True refl] show ?thesis by (simp only: tokens_hole[OF True]) simp
  next
    case False
    have "case tokens cs of Chr d # ts' \<Rightarrow>
            d = CHR ''{'' \<longrightarrow> (\<forall>t\<in>set ts'. \<exists>e. t = Chr e \<and> e \<noteq> CHR ''}'')
          | _ \<Rightarrow> True" if c: "c = CHR ''$''"
    proof (cases cs)
      case Nil
      then show ?thesis by simp
    next
      case (Cons d cs')
      show ?thesis
      proof (cases "d = CHR ''{''")
        case True
        with c Cons False have nb: "CHR ''}'' \<notin> set cs'" by (simp add: HasPrefix_Cons)
        then have "CHR ''}'' \<notin> set (drop 1 cs')" by (meson in_set_dropD)
        with True Cons nb show ?thesis
          by (auto simp: HasPrefix_Cons tokens_no_brace)
      next
        case False
        then show ?thesis using Cons
          by (auto simp: HasPrefix_Cons Let_def split: list.splits token.splits)
      qed
    qed
    with "2.IH"(2)[OF False] show ?thesis by (simp only: tokens_chr[OF False]) simp
  qed
qed

lemma pieces_simps [simp]:
  "pieces S [] = []"
  "pieces S (t # ts) = tokenPieces S t @ pieces S ts"
  by (simp_all add: pieces_def)

lemma replacePieces_match:
  "old \<noteq> [] \<Longrightarrow> replacePieces old (map Quoted old @ us) = Wild # replacePieces old us"
  by (cases old) simp_all

lemma replacePieces_step:
  "take (length old) (u # us) \<noteq> map Quoted old \<Longrightarrow>
   replacePieces old (u # us) = u # replacePieces old us"
  by simp

lemma replacePieces_skip:
  "\<forall>u\<in>set pre. u \<noteq> Quoted d \<Longrightarrow>
   replacePieces (d # old) (pre @ us) = pre @ replacePieces (d # old) us"
  by (induction pre) auto

lemma placeholder_prefix_eq:
  assumes "CHR ''}'' \<notin> set n" "CHR ''}'' \<notin> set m"
    and "take (length (n @ ''}'')) (map Quoted (m @ ''}'') @ rest) = map Quoted (n @ ''}'')"
  shows "n = m"
  using assms
proof (induction n arbitrary: m)
  case Nil
  then show ?case by (cases m) auto
next
  case (Cons a n)
  show ?case
  proof (cases m)
    case Nil
    with Cons.prems show ?thesis by auto
  next
    case (Cons b m')
    with Cons.prems Cons.IH[of m'] show ?thesis by auto
  qed
qed

lemma take_subset: "take k xs = ys \<Longrightarrow> set ys \<subseteq> set xs"
  by (metis set_take_subset)

lemma pieces_step:
  assumes n: "CHR ''}'' \<notin> set n" "CHR ''$'' \<notin> set n"
  shows "wellTokenised ts \<Longrightarrow> \<forall>m\<in>set (holes ts). CHR ''$'' \<notin> set m \<Longrightarrow>
     replacePieces (placeholder n) (pieces S ts) = pieces (insert n S) ts"
proof (induction ts)
  case Nil
  then show ?case by simp
next
  case (Cons t ts)
  have old: "placeholder n = CHR ''$'' # CHR ''{'' # n @ ''}''" by (simp add: placeholder_def)
  show ?case
  proof (cases t)
    case (Chr c)
    from Cons Chr have IH: "replacePieces (placeholder n) (pieces S ts) = pieces (insert n S) ts"
      by simp
    have "take (length (placeholder n)) (Quoted c # pieces S ts) \<noteq> map Quoted (placeholder n)"
    proof
      assume a: "take (length (placeholder n)) (Quoted c # pieces S ts) = map Quoted (placeholder n)"
      then have c: "c = CHR ''$''" by (simp add: old)
      from a have b: "take (Suc (length n + 1)) (pieces S ts) = map Quoted (CHR ''{'' # n @ ''}'')"
        by (simp add: old)
      then obtain t' ts' where ts: "ts = t' # ts'" by (cases ts) auto
      show False
      proof (cases t')
        case (Chr d)
        with b ts have d: "d = CHR ''{''" and r: "take (length n + 1) (pieces S ts') = map Quoted (n @ ''}'')"
          by simp_all
        from Cons.prems(1) \<open>t = Chr c\<close> c ts Chr d
        have all: "\<forall>t\<in>set ts'. \<exists>e. t = Chr e \<and> e \<noteq> CHR ''}''" by simp
        have "Quoted (CHR ''}'') \<notin> set (pieces S ts')"
          using all by (induction ts') auto
        moreover from take_subset[OF r] have "Quoted (CHR ''}'') \<in> set (pieces S ts')" by auto
        ultimately show False by simp
      next
        case (Hole m)
        with b ts show False by (cases "m \<in> S") (simp_all add: placeholder_def)
      qed
    qed
    from replacePieces_step[OF this] IH Chr show ?thesis by simp
  next
    case (Hole m)
    from Cons Hole have IH: "replacePieces (placeholder n) (pieces S ts) = pieces (insert n S) ts"
      and m: "CHR ''}'' \<notin> set m" "CHR ''$'' \<notin> set m"
      by simp_all
    show ?thesis
    proof (cases "m \<in> S")
      case True
      have "take (length (placeholder n)) (Wild # pieces S ts) \<noteq> map Quoted (placeholder n)"
        by (simp add: old)
      from replacePieces_step[OF this] IH Hole True show ?thesis by simp
    next
      case False
      show ?thesis
      proof (cases "m = n")
        case True
        have "placeholder n \<noteq> []" by (simp add: old)
        from replacePieces_match[OF this, of "pieces S ts"] IH Hole False True
        show ?thesis by simp
      next
        case neq: False
        have ne: "take (length (placeholder n)) (map Quoted (placeholder m) @ pieces S ts) \<noteq>
            map Quoted (placeholder n)"
        proof
          assume "take (length (placeholder n)) (map Quoted (placeholder m) @ pieces S ts) =
            map Quoted (placeholder n)"
          then have "take (length (n @ ''}'')) (map Quoted (m @ ''}'') @ pieces S ts) =
              map Quoted (n @ ''}'')"
            by (simp add: placeholder_def)
          from placeholder_prefix_eq[OF n(1) m(1) this] neq show False by simp
        qed
        have "map Quoted (placeholder m) @ pieces S ts =
            Quoted (CHR ''$'') # (map Quoted (CHR ''{'' # m @ ''}'') @ pieces S ts)"
          by (simp add: placeholder_def)
        with ne have "replacePieces (placeholder n) (map Quoted (placeholder m) @ pieces S ts) =
            Quoted (CHR ''$'') #
            replacePieces (placeholder n) (map Quoted (CHR ''{'' # m @ ''}'') @ pieces S ts)"
          by (metis replacePieces_step)
        also have "replacePieces (placeholder n) (map Quoted (CHR ''{'' # m @ ''}'') @ pieces S ts) =
            map Quoted (CHR ''{'' # m @ ''}'') @ replacePieces (placeholder n) (pieces S ts)"
          unfolding old using m(2) by (intro replacePieces_skip) auto
        finally show ?thesis using IH Hole False neq by (simp add: placeholder_def)
      qed
    qed
  qed
qed

lemma holes_no_brace: "wellTokenised ts \<Longrightarrow> n \<in> set (holes ts) \<Longrightarrow> CHR ''}'' \<notin> set n"
  by (induction ts rule: holes.induct) auto

lemma fold_pieces:
  assumes "wellTokenised ts" "\<forall>m\<in>set (holes ts). CHR ''$'' \<notin> set m"
  shows "\<forall>n\<in>set ns. CHR ''}'' \<notin> set n \<and> CHR ''$'' \<notin> set n \<Longrightarrow>
     fold replacePieces (map placeholder ns) (pieces S ts) = pieces (S \<union> set ns) ts"
proof (induction ns arbitrary: S)
  case Nil
  then show ?case by simp
next
  case (Cons n ns)
  then have n: "CHR ''}'' \<notin> set n" "CHR ''$'' \<notin> set n" by simp_all
  from pieces_step[OF n assms, of S] Cons.IH[of "insert n S"] Cons.prems
  show ?case by simp
qed

lemma pieces_all: "set (holes ts) \<subseteq> S \<Longrightarrow> expr (pieces S ts) = expr (map (\<lambda>t. case t of Chr c \<Rightarrow> Quoted c | Hole n \<Rightarrow> Wild) ts)"
  by (induction ts rule: holes.induct) (simp_all add: expr_Cons)

lemma Compile_pieces_all:
  "set (holes ts) \<subseteq> S \<Longrightarrow> Compile (expr (pieces S ts)) = Some (map tokenInst ts)"
proof -
  assume "set (holes ts) \<subseteq> S"
  then have "expr (pieces S ts) =
      expr (map (\<lambda>t. case t of Chr c \<Rightarrow> Quoted c | Hole n \<Rightarrow> Wild) ts)"
    by (rule pieces_all)
  moreover have "map pieceInst (map (\<lambda>t. case t of Chr c \<Rightarrow> Quoted c | Hole n \<Rightarrow> Wild) ts) =
      map tokenInst ts"
    by (auto simp: pieceInst_def tokenInst_def split: token.splits)
  ultimately show ?thesis by (simp add: Compile_expr)
qed

lemma Compile_setterRegexp_tokens:
  assumes "\<forall>m\<in>set (holes (tokens pattern)). CHR ''$'' \<notin> set m"
  shows "Compile (setterRegexp pattern) = Some (map tokenInst (tokens pattern))"
proof -
  let ?ts = "tokens pattern"
  have w: "wellTokenised ?ts" by (rule wellTokenised_tokens)
  have "\<forall>n\<in>set (holes ?ts). CHR ''}'' \<notin> set n \<and> CHR ''$'' \<notin> set n"
    using assms holes_no_brace[OF w] by blast
  from fold_pieces[OF w assms this, of "{}"]
  have "fold replacePieces (unresolvedSetters pattern) (map Quoted pattern) =
      pieces (set (holes ?ts)) ?ts"
    by (simp add: unresolvedSetters_tokens tokens_pieces pieces_def)
  then show ?thesis
    by (simp add: setterRegexp_pieces Compile_pieces_all)
qed

lemma firstSome_Some: "firstSome f xs = Some y \<Longrightarrow> \<exists>x\<in>set xs. f x = Some y"
  by (induction xs) (auto split: option.splits)

lemma matchHere_weave:
  "matchHere r s = Some (m, gs) \<Longrightarrow>
   m = weave r gs \<and> (\<exists>t. s = m @ t) \<and> length gs = length (filter (\<lambda>i. i = Group) r)"
proof (induction r arbitrary: s m gs)
  case Nil
  then show ?case by simp
next
  case (Cons i r)
  show ?case
  proof (cases i)
    case (Lit c)
    with Cons.prems obtain s' m' where s: "s = c # s'" and r: "matchHere r s' = Some (m', gs)"
      and m: "m = c # m'"
      by (auto split: list.splits if_splits)
    from Cons.IH[OF r] s m Lit show ?thesis by auto
  next
    case Group
    with Cons.prems have "firstSome
        (\<lambda>k. map_option (\<lambda>(m, gs). (take k s @ m, take k s # gs)) (matchHere r (drop k s)))
        (rev [0..<Suc (dotRun s)]) = Some (m, gs)"
      by (simp only: matchHere.simps inst.simps)
    from firstSome_Some[OF this] obtain k where
      "map_option (\<lambda>(m, gs). (take k s @ m, take k s # gs)) (matchHere r (drop k s)) = Some (m, gs)"
      by blast
    then obtain m' gs' where r: "matchHere r (drop k s) = Some (m', gs')"
      and m: "m = take k s @ m'" and gs: "gs = take k s # gs'"
      by auto
    from Cons.IH[OF r] obtain t where "m' = weave r gs'" "drop k s = m' @ t"
      "length gs' = length (filter (\<lambda>i. i = Group) r)" by blast
    moreover from this have "s = (take k s @ m') @ t" by (metis append_take_drop_id append.assoc)
    ultimately show ?thesis using m gs Group by auto
  qed
qed

lemma FindStringSubmatch_match:
  "FindStringSubmatch r v = Some l \<Longrightarrow>
   \<exists>pre m gs t. l = m # gs \<and> v = pre @ m @ t \<and> matchHere r (m @ t) = Some (m, gs)"
proof (induction v)
  case Nil
  then obtain m gs where "matchHere r [] = Some (m, gs)" "l = m # gs" by auto
  moreover from matchHere_weave[OF this(1)] have "m = []" by auto
  ultimately show ?case by auto
next
  case (Cons c v)
  show ?case
  proof (cases "matchHere r (c # v)")
    case None
    with Cons.prems have "FindStringSubmatch r v = Some l" by simp
    from Cons.IH[OF this] obtain pre m gs t where
      "l = m # gs" "v = pre @ m @ t" "matchHere r (m @ t) = Some (m, gs)" by blast
    then have "l = m # gs \<and> c # v = (c # pre) @ m @ t \<and> matchHere r (m @ t) = Some (m, gs)"
      by simp
    then show ?thesis by blast
  next
    case (Some res)
    obtain m gs where res: "res = (m, gs)" by (cases res)
    with Some Cons.prems have l: "l = m # gs" by simp
    from matchHere_weave[OF Some[unfolded res]] obtain t where t: "c # v = m @ t" by blast
    with Some res l have "l = m # gs \<and> c # v = [] @ m @ t \<and> matchHere r (m @ t) = Some (m, gs)"
      by simp
    then show ?thesis by blast
  qed
qed

lemma substitute_tokens: "substitute b p = concat (map (tokenText b) (tokens p))"
  by (induction p rule: tokens.induct)
    (auto simp: Let_def tokenText_def placeholder_def split: option.splits)

lemma weave_subst:
  "length (holes ts) = length gs \<Longrightarrow>
   \<forall>i<length gs. map_of b (holes ts ! i) = Some (gs ! i) \<Longrightarrow>
   weave (map tokenInst ts) gs = concat (map (tokenText b) ts)"
proof (induction ts arbitrary: gs rule: holes.induct)
  case 1
  then show ?case by simp
next
  case (2 c ts)
  then show ?case by (simp add: tokenInst_def tokenText_def)
next
  case (3 n ts)
  then obtain g gs' where gs: "gs = g # gs'" by (cases gs) auto
  with "3.prems" have l: "length (holes ts) = length gs'" by simp
  from "3.prems"(2) gs have h: "map_of b n = Some g" by auto
  have "\<forall>i<length gs'. map_of b (holes ts ! i) = Some (gs' ! i)"
  proof (intro allI impI)
    fix i assume "i < length gs'"
    with "3.prems"(2) gs have "map_of b (holes (Hole n # ts) ! Suc i) = Some (gs ! Suc i)"
      by (metis Suc_less_eq length_Cons)
    with gs show "map_of b (holes ts ! i) = Some (gs' ! i)" by simp
  qed
  from "3.IH"[OF l this] gs h show ?case by (simp add: tokenInst_def tokenText_def)
qed

lemma clean_placeholder': "clean (placeholder name) = name"
  by (simp add: placeholder_def clean_def TrimSpace_def isSpace_def TrimPrefix_def TrimSuffix_def
      HasPrefix_def HasSuffix_def)

lemma bindValues_nonempty:
  "bindValues kvs res \<noteq> [] \<Longrightarrow>
   bindValues kvs res = fold (\<lambda>kv. AList.update (clean (fst kv)) (snd kv)) kvs res"
  by (induction kvs res rule: bindValues.induct) (auto split: if_splits)

lemma fold_update_other:
  "x \<notin> (\<lambda>kv. f (fst kv)) ` set kvs \<Longrightarrow>
   map_of (fold (\<lambda>kv. AList.update (f (fst kv)) (snd kv)) kvs res) x = map_of res x"
  by (induction kvs arbitrary: res) (auto simp: update_conv')

lemma fold_update_lookup:
  "distinct (map (\<lambda>kv. f (fst kv)) kvs) \<Longrightarrow> (k, v) \<in> set kvs \<Longrightarrow>
   map_of (fold (\<lambda>kv. AList.update (f (fst kv)) (snd kv)) kvs res) (f k) = Some v"
proof (induction kvs arbitrary: res)
  case Nil
  then show ?case by simp
next
  case (Cons kv kvs)
  show ?case
  proof (cases "kv = (k, v)")
    case True
    with Cons.prems have "f k \<notin> (\<lambda>kv. f (fst kv)) ` set kvs" by auto
    from fold_update_other[OF this] True show ?thesis by (simp add: update_conv')
  next
    case False
    with Cons show ?thesis by auto
  qed
qed

section \<open>Properties of the registry and of the visits\<close>

lemma rangeMap_mset: "iterOrder ord \<Longrightarrow> mset (rangeMap ord m) = mset m"
proof -
  assume "iterOrder ord"
  then have "mset (ord (length m)) = mset [0..<length m]" by (simp add: iterOrder_def)
  then have "mset (map ((!) m) (ord (length m))) = mset (map ((!) m) [0..<length m])"
    by (metis mset_map)
  then show ?thesis by (simp add: rangeMap_def map_nth)
qed

lemma rangeMap_set: "iterOrder ord \<Longrightarrow> set (rangeMap ord m) = set m"
  by (metis rangeMap_mset set_mset_mset)

lemma rangeMap_distinct_keys:
  "iterOrder ord \<Longrightarrow> distinct (map fst m) \<Longrightarrow> distinct (map fst (rangeMap ord m))"
  by (metis rangeMap_mset mset_map mset_eq_imp_distinct_iff)

lemma rangeMap_map_of:
  "iterOrder ord \<Longrightarrow> distinct (map fst m) \<Longrightarrow> map_of (rangeMap ord m) = map_of m"
  by (metis rangeMap_distinct_keys rangeMap_set map_of_inject_set)

lemma distinct_bindValues:
  "distinct (map fst res) \<Longrightarrow> distinct (map fst (bindValues kvs res))"
  by (induction kvs res rule: bindValues.induct) (auto simp: distinct_update)

lemma distinct_currentSetterValues: "distinct (map fst (currentSetterValues pattern value))"
  by (auto simp: currentSetterValues_def Let_def distinct_bindValues split: option.splits list.splits)

lemma addScalar_lookup:
  "map_of (ScalarSetters (addScalar (k, v) ls)) k' =
     (if k' = k then
        Some (case map_of (ScalarSetters ls) k of
                Some s \<Rightarrow> s\<lparr>Count_s := Count_s s + 1\<rparr>
              | None \<Rightarrow> \<lparr>Name_s = k, Value_s = v, Count_s = 1\<rparr>)
      else map_of (ScalarSetters ls) k')"
  by (auto simp: addScalar_def update_conv' split: option.splits)

lemma addScalar_frame:
  "ArraySetters (addScalar kv ls) = ArraySetters ls"
  "Warnings (addScalar kv ls) = Warnings ls"
  "filePath (addScalar kv ls) = filePath ls"
  by (auto simp: addScalar_def Let_def split: option.splits)

lemma fold_addScalar_frame:
  "ArraySetters (fold addScalar kvs ls) = ArraySetters ls"
  "Warnings (fold addScalar kvs ls) = Warnings ls"
  "filePath (fold addScalar kvs ls) = filePath ls"
  by (induction kvs arbitrary: ls) (auto simp: addScalar_frame)

lemma fold_addScalar_lookup:
  "distinct (map fst kvs) \<Longrightarrow>
   map_of (ScalarSetters (fold addScalar kvs ls)) k =
     (case map_of kvs k of
        None \<Rightarrow> map_of (ScalarSetters ls) k
      | Some v \<Rightarrow>
          Some (case map_of (ScalarSetters ls) k of
                  Some s \<Rightarrow> s\<lparr>Count_s := Count_s s + 1\<rparr>
                | None \<Rightarrow> \<lparr>Name_s = k, Value_s = v, Count_s = 1\<rparr>))"
proof (induction kvs arbitrary: ls)
  case Nil
  then show ?case by simp
next
  case (Cons kv kvs)
  obtain k0 v0 where kv: "kv = (k0, v0)" by (cases kv)
  from Cons.prems kv have d: "distinct (map fst kvs)" and n: "map_of kvs k0 = None"
    by (auto simp: map_of_eq_None_iff)
  show ?case
  proof (cases "k = k0")
    case True
    with n kv show ?thesis
      using Cons.IH[OF d, of "addScalar (k0, v0) ls"]
      by (simp add: addScalar_lookup split: option.splits)
  next
    case False
    then have "map_of (ScalarSetters (addScalar (k0, v0) ls)) k = map_of (ScalarSetters ls) k"
      by (simp add: addScalar_lookup)
    with False kv show ?thesis
      using Cons.IH[OF d, of "addScalar (k0, v0) ls"] by (simp cong: option.case_cong)
  qed
qed

lemma csv_no_placeholders: "unresolvedSetters pattern = [] \<Longrightarrow> currentSetterValues pattern value = []"
  by (auto simp: currentSetterValues_def split: option.splits list.splits)

lemma csv_empty_pattern: "currentSetterValues [] value = []"
  by (simp add: csv_no_placeholders)

lemma visitScalar_eq:
  "visitScalar ord ls object = (fold addScalar (rangeMap ord (scalarBindings object)) ls, None)"
  if "iterOrder ord"
  using that
  by (simp add: visitScalar_def scalarBindings_def Let_def rangeMap_def iterOrder_0 csv_empty_pattern)

lemma distinct_scalarBindings: "distinct (map fst (scalarBindings object))"
  by (simp add: scalarBindings_def distinct_currentSetterValues)

lemma visitScalar_lookup:
  assumes "iterOrder ord"
  shows "map_of (ScalarSetters (fst (visitScalar ord ls object))) k =
     (case map_of (scalarBindings object) k of
        None \<Rightarrow> map_of (ScalarSetters ls) k
      | Some v \<Rightarrow>
          Some (case map_of (ScalarSetters ls) k of
                  Some s \<Rightarrow> s\<lparr>Count_s := Count_s s + 1\<rparr>
                | None \<Rightarrow> \<lparr>Name_s = k, Value_s = v, Count_s = 1\<rparr>))"
  using assms
  by (simp add: visitScalar_eq fold_addScalar_lookup rangeMap_distinct_keys
      distinct_scalarBindings rangeMap_map_of)

lemma visitScalar_frame:
  assumes "iterOrder ord"
  shows "ArraySetters (fst (visitScalar ord ls object)) = ArraySetters ls"
    and "Warnings (fst (visitScalar ord ls object)) = Warnings ls"
    and "filePath (fst (visitScalar ord ls object)) = filePath ls"
    and "snd (visitScalar ord ls object) = None"
  using assms by (simp_all add: visitScalar_eq fold_addScalar_frame)

lemma visitField_eq:
  "visitField ls node =
     (case fieldSetter node of None \<Rightarrow> ls | Some name \<Rightarrow> addArray name (fieldValues node) ls,
      None)"
  by (simp add: visitField_def fieldSetter_def fieldComment_def fieldValues_def addArray_def
      Elements_def ErrorIfInvalid_def Let_def split: option.splits)

lemma addArray_lookup:
  "map_of (ArraySetters (addArray name vals ls)) k =
     (if k = name then
        Some (case map_of (ArraySetters ls) name of
                Some a \<Rightarrow> a\<lparr>Count_a := Count_a a + 1\<rparr>
              | None \<Rightarrow> \<lparr>Name_a = name, Values_a = vals, Count_a = 1\<rparr>)
      else map_of (ArraySetters ls) k)"
  by (auto simp: addArray_def update_conv' split: option.splits)

lemma addArray_frame:
  "ScalarSetters (addArray name vals ls) = ScalarSetters ls"
  "Warnings (addArray name vals ls) = Warnings ls"
  "filePath (addArray name vals ls) = filePath ls"
  by (auto simp: addArray_def split: option.splits)

lemma visitField_frame:
  "ScalarSetters (fst (visitField ls node)) = ScalarSetters ls"
  "Warnings (fst (visitField ls node)) = Warnings ls"
  "filePath (fst (visitField ls node)) = filePath ls"
  "snd (visitField ls node) = None"
  by (auto simp: visitField_eq addArray_frame split: option.splits)

lemma visitField_lookup:
  "map_of (ArraySetters (fst (visitField ls node))) k =
     (if fieldSetter node = Some k then
        Some (case map_of (ArraySetters ls) k of
                Some a \<Rightarrow> a\<lparr>Count_a := Count_a a + 1\<rparr>
              | None \<Rightarrow> \<lparr>Name_a = k, Values_a = fieldValues node, Count_a = 1\<rparr>)
      else map_of (ArraySetters ls) k)"
  by (auto simp: visitField_eq addArray_lookup split: option.splits)

lemma countedArray_Nil [simp]: "countedArray name [] e = e"
  by (simp add: countedArray_def)

lemma countedArray_Cons:
  "countedArray name (h # hs) e =
     countedArray name hs
       (Some (case e of Some a \<Rightarrow> a\<lparr>Count_a := Count_a a + 1\<rparr>
              | None \<Rightarrow> \<lparr>Name_a = name, Values_a = fieldValues h, Count_a = 1\<rparr>))"
  by (cases hs; cases e) (simp_all add: countedArray_def)

lemma countedArray_append:
  "countedArray name (hs @ hs') e = countedArray name hs' (countedArray name hs e)"
proof (induction hs arbitrary: e)
  case Nil
  then show ?case by simp
next
  case (Cons h hs)
  show ?case by (simp add: countedArray_Cons Cons.IH)
qed

lemma forEach_total:
  "(\<And>s x. snd (f s x) = None) \<Longrightarrow> forEach f s xs = (fold (\<lambda>x s. fst (f s x)) xs s, None)"
proof (induction xs arbitrary: s)
  case Nil
  then show ?case by simp
next
  case (Cons x xs)
  obtain s' e where fx: "f s x = (s', e)" by (cases "f s x")
  with Cons.prems[of s x] have "e = None" by simp
  with fx Cons show ?case by simp
qed

lemma forEach_append:
  "forEach f s (xs @ ys) =
     (case forEach f s xs of (s', None) \<Rightarrow> forEach f s' ys | (s', Some e) \<Rightarrow> (s', Some e))"
  by (induction xs arbitrary: s) (auto split: prod.splits option.splits)

lemma fold_visitField_lookup:
  "map_of (ArraySetters (fold (\<lambda>x s. fst (visitField s x)) fs ls)) name =
     countedArray name (filter (\<lambda>node. fieldSetter node = Some name) fs)
       (map_of (ArraySetters ls) name)"
proof (induction fs arbitrary: ls)
  case Nil
  then show ?case by simp
next
  case (Cons f fs)
  show ?case
    by (simp add: Cons.IH countedArray_Cons visitField_lookup)
qed

lemma fold_visitField_frame:
  "ScalarSetters (fold (\<lambda>x s. fst (visitField s x)) fs ls) = ScalarSetters ls"
  "Warnings (fold (\<lambda>x s. fst (visitField s x)) fs ls) = Warnings ls"
  "filePath (fold (\<lambda>x s. fst (visitField s x)) fs ls) = filePath ls"
  by (induction fs arbitrary: ls) (simp_all add: visitField_frame)

lemma visitField_None: "visitField ls node = (fst (visitField ls node), None)"
  by (simp add: visitField_eq)

lemma visitFieldNamed_step:
  "Field_rn n name = Inl err \<Longrightarrow> visitFieldNamed n ls name = (ls, Some err)"
  "Field_rn n name = Inr None \<Longrightarrow> visitFieldNamed n ls name = (ls, None)"
  "Field_rn n name = Inr (Some node) \<Longrightarrow>
     visitFieldNamed n ls name = (fst (visitField ls node), None)"
  using visitField_None[of ls node] by (simp_all add: visitFieldNamed_def)

lemma forEach_visitFieldNamed_ok:
  "forEach (visitFieldNamed n) ls names = (ls', None) \<Longrightarrow>
   ls' = fold (\<lambda>x s. fst (visitField s x))
     (concat (map (\<lambda>fieldName. case Field_rn n fieldName of Inr (Some node) \<Rightarrow> [node] | _ \<Rightarrow> [])
        names)) ls"
proof (induction names arbitrary: ls)
  case Nil
  then show ?case by simp
next
  case (Cons name names)
  show ?case
  proof (cases "Field_rn n name")
    case (Inl err)
    with Cons.prems show ?thesis by (simp add: visitFieldNamed_step)
  next
    case (Inr r)
    show ?thesis
    proof (cases r)
      case None
      with Inr Cons.prems have "forEach (visitFieldNamed n) ls names = (ls', None)"
        by (simp add: visitFieldNamed_step)
      from Cons.IH[OF this] Inr None show ?thesis by simp
    next
      case (Some node)
      with Inr have "visitFieldNamed n ls name = (fst (visitField ls node), None)"
        by (simp add: visitFieldNamed_step)
      with Cons.prems have "forEach (visitFieldNamed n) (fst (visitField ls node)) names = (ls', None)"
        by simp
      from Cons.IH[OF this] Inr Some show ?thesis by simp
    qed
  qed
qed

lemma forEach_visitFieldNamed_fold:
  "\<exists>fs. fst (forEach (visitFieldNamed n) ls names) = fold (\<lambda>x s. fst (visitField s x)) fs ls"
proof (induction names arbitrary: ls)
  case Nil
  have "fst (forEach (visitFieldNamed n) ls []) = fold (\<lambda>x s. fst (visitField s x)) [] ls"
    by simp
  then show ?case by blast
next
  case (Cons name names)
  show ?case
  proof (cases "Field_rn n name")
    case (Inl err)
    then have "fst (forEach (visitFieldNamed n) ls (name # names)) =
        fold (\<lambda>x s. fst (visitField s x)) [] ls"
      by (simp add: visitFieldNamed_step)
    then show ?thesis by blast
  next
    case (Inr r)
    show ?thesis
    proof (cases r)
      case None
      with Inr have "forEach (visitFieldNamed n) ls (name # names) =
          forEach (visitFieldNamed n) ls names"
        by (simp add: visitFieldNamed_step)
      with Cons.IH[of ls] show ?thesis by simp
    next
      case (Some node)
      with Inr have "visitFieldNamed n ls name = (fst (visitField ls node), None)"
        by (simp add: visitFieldNamed_step)
      then have e: "forEach (visitFieldNamed n) ls (name # names) =
          forEach (visitFieldNamed n) (fst (visitField ls node)) names"
        by simp
      from Cons.IH[of "fst (visitField ls node)"] obtain fs where
        "fst (forEach (visitFieldNamed n) (fst (visitField ls node)) names) =
           fold (\<lambda>x s. fst (visitField s x)) fs (fst (visitField ls node))" by blast
      with e have "fst (forEach (visitFieldNamed n) ls (name # names)) =
          fold (\<lambda>x s. fst (visitField s x)) (node # fs) ls" by simp
      then show ?thesis by blast
    qed
  qed
qed

lemma visitMapping_fold:
  "\<exists>fs. fst (visitMapping ls n) = fold (\<lambda>x s. fst (visitField s x)) fs ls"
proof (cases "Fields n")
  case (Inl err)
  then have "fst (visitMapping ls n) = fold (\<lambda>x s. fst (visitField s x)) [] ls"
    by (simp add: visitMapping_def)
  then show ?thesis by blast
next
  case (Inr names)
  with forEach_visitFieldNamed_fold[of n ls names] show ?thesis
    by (simp add: visitMapping_def)
qed

lemma visitMapping_frame:
  "ScalarSetters (fst (visitMapping ls n)) = ScalarSetters ls"
  "Warnings (fst (visitMapping ls n)) = Warnings ls"
  "filePath (fst (visitMapping ls n)) = filePath ls"
  using visitMapping_fold[of ls n] by (auto simp: fold_visitField_frame)

lemma visitMapping_ok:
  assumes "visitMapping ls n = (ls', None)"
  shows "ls' = fold (\<lambda>x s. fst (visitField s x)) (fieldsVisited n) ls"
proof (cases "Fields n")
  case (Inl err)
  with assms show ?thesis by (simp add: visitMapping_def)
next
  case (Inr names)
  then have n: "names = fieldNames (Content n)"
    by (auto simp: Fields_def split: option.splits)
  from Inr assms have "forEach (visitFieldNamed n) ls names = (ls', None)"
    by (simp add: visitMapping_def)
  from forEach_visitFieldNamed_ok[OF this] n show ?thesis by (simp add: fieldsVisited_def)
qed

lemma visitedFields_append: "visitedFields (vs @ ws) = visitedFields vs @ visitedFields ws"
  by (induction vs rule: visitedFields.induct) auto

lemma fieldsNamed_append: "fieldsNamed name (vs @ ws) = fieldsNamed name vs @ fieldsNamed name ws"
  by (simp add: fieldsNamed_def visitedFields_append)

lemma visits_array_lookup:
  assumes "iterOrder ord"
  shows "forEach (visitNode ord) ls vs = (ls', None) \<Longrightarrow>
     map_of (ArraySetters ls') name =
       countedArray name (fieldsNamed name vs) (map_of (ArraySetters ls) name)"
proof (induction vs arbitrary: ls)
  case Nil
  then show ?case by (simp add: fieldsNamed_def)
next
  case (Cons v vs)
  obtain ls1 e where v1: "visitNode ord ls v = (ls1, e)" by (cases "visitNode ord ls v")
  with Cons.prems have e: "e = None" and rest: "forEach (visitNode ord) ls1 vs = (ls', None)"
    by (auto split: option.splits)
  note IH = Cons.IH[OF rest]
  show ?case
  proof (cases v)
    case (VisitMapping n)
    with v1 e have "visitMapping ls n = (ls1, None)" by (simp add: visitNode_def)
    then have "ls1 = fold (\<lambda>x s. fst (visitField s x)) (fieldsVisited n) ls"
      by (rule visitMapping_ok)
    then have "map_of (ArraySetters ls1) name =
        countedArray name (filter (\<lambda>node. fieldSetter node = Some name) (fieldsVisited n))
          (map_of (ArraySetters ls) name)"
      by (simp add: fold_visitField_lookup)
    with IH VisitMapping show ?thesis
      by (simp add: fieldsNamed_def countedArray_append)
  next
    case (VisitScalar n)
    with v1 have "ls1 = fst (visitScalar ord ls n)" by (simp add: visitNode_def)
    then have "ArraySetters ls1 = ArraySetters ls"
      using assms by (simp add: visitScalar_frame)
    with IH VisitScalar show ?thesis by (simp add: fieldsNamed_def)
  qed
qed

lemma countedScalar_Nil [simp]: "countedScalar name [] e = e"
  by (simp add: countedScalar_def)

lemma countedScalar_Cons:
  "countedScalar name (h # hs) e =
     countedScalar name hs
       (Some (case e of Some s \<Rightarrow> s\<lparr>Count_s := Count_s s + 1\<rparr>
              | None \<Rightarrow> \<lparr>Name_s = name, Value_s = h, Count_s = 1\<rparr>))"
  by (cases hs; cases e) (simp_all add: countedScalar_def)

lemma countedScalar_append:
  "countedScalar name (hs @ hs') e = countedScalar name hs' (countedScalar name hs e)"
proof (induction hs arbitrary: e)
  case Nil
  then show ?case by simp
next
  case (Cons h hs)
  show ?case by (simp add: countedScalar_Cons Cons.IH)
qed

lemma valuesNamed_Nil [simp]: "valuesNamed name [] = []"
  by (simp add: valuesNamed_def)

lemma valuesNamed_Cons:
  "valuesNamed name (VisitMapping n # vs) = valuesNamed name vs"
  "valuesNamed name (VisitScalar n # vs) =
     (case map_of (scalarBindings n) name of Some x \<Rightarrow> [x] | None \<Rightarrow> []) @ valuesNamed name vs"
  by (simp_all add: valuesNamed_def)

lemma valuesNamed_append:
  "valuesNamed name (vs @ ws) = valuesNamed name vs @ valuesNamed name ws"
  by (simp add: valuesNamed_def)

lemma visits_scalar_lookup:
  assumes "iterOrder ord"
  shows "forEach (visitNode ord) ls vs = (ls', None) \<Longrightarrow>
     map_of (ScalarSetters ls') name =
       countedScalar name (valuesNamed name vs) (map_of (ScalarSetters ls) name)"
proof (induction vs arbitrary: ls)
  case Nil
  then show ?case by simp
next
  case (Cons v vs)
  obtain ls1 e where v1: "visitNode ord ls v = (ls1, e)" by (cases "visitNode ord ls v")
  with Cons.prems have e: "e = None" and rest: "forEach (visitNode ord) ls1 vs = (ls', None)"
    by (auto split: option.splits)
  note IH = Cons.IH[OF rest]
  show ?case
  proof (cases v)
    case (VisitMapping n)
    with v1 have "ls1 = fst (visitMapping ls n)" by (simp add: visitNode_def)
    then have "ScalarSetters ls1 = ScalarSetters ls" by (simp add: visitMapping_frame)
    with IH VisitMapping show ?thesis by (simp add: valuesNamed_Cons)
  next
    case (VisitScalar n)
    with v1 have l: "ls1 = fst (visitScalar ord ls n)" by (simp add: visitNode_def)
    have "map_of (ScalarSetters ls1) name =
        countedScalar name (case map_of (scalarBindings n) name of Some x \<Rightarrow> [x] | None \<Rightarrow> [])
          (map_of (ScalarSetters ls) name)"
      unfolding l visitScalar_lookup[OF assms]
      by (simp add: countedScalar_Cons split: option.splits)
    with IH VisitScalar show ?thesis
      by (simp add: valuesNamed_Cons countedScalar_append)
  qed
qed

lemma countedArray_Some:
  "\<exists>c\<ge>0. countedArray name hits (Some a) = Some (a\<lparr>Count_a := Count_a a + c\<rparr>)"
proof (cases hits)
  case Nil
  then show ?thesis by (auto intro: exI[of _ 0])
next
  case (Cons h hs)
  then show ?thesis
    by (auto simp: countedArray_def intro: exI[of _ "1 + int (length hs)"])
qed

lemma visitNode_keeps_array:
  assumes "iterOrder ord" "map_of (ArraySetters ls) name = Some a"
  shows "\<exists>c\<ge>0. map_of (ArraySetters (fst (visitNode ord ls v))) name =
      Some (a\<lparr>Count_a := Count_a a + c\<rparr>)"
proof (cases v)
  case (VisitMapping n)
  from visitMapping_fold[of ls n] obtain fs where
    "fst (visitMapping ls n) = fold (\<lambda>x s. fst (visitField s x)) fs ls" by blast
  with VisitMapping assms show ?thesis
    by (simp add: visitNode_def fold_visitField_lookup countedArray_Some)
next
  case (VisitScalar n)
  with assms show ?thesis
    by (auto simp: visitNode_def visitScalar_frame intro: exI[of _ 0])
qed

lemma visitNode_keeps_scalar:
  assumes "iterOrder ord" "map_of (ScalarSetters ls) name = Some s"
  shows "\<exists>c\<ge>0. map_of (ScalarSetters (fst (visitNode ord ls v))) name =
      Some (s\<lparr>Count_s := Count_s s + c\<rparr>)"
proof (cases v)
  case (VisitMapping n)
  from visitMapping_fold[of ls n] obtain fs where
    "fst (visitMapping ls n) = fold (\<lambda>x s. fst (visitField s x)) fs ls" by blast
  with VisitMapping assms show ?thesis
    by (auto simp: visitNode_def fold_visitField_frame intro: exI[of _ 0])
next
  case (VisitScalar n)
  show ?thesis
  proof (cases "map_of (scalarBindings n) name")
    case None
    with VisitScalar assms show ?thesis
      by (auto simp: visitNode_def visitScalar_lookup intro: exI[of _ 0])
  next
    case (Some v)
    with VisitScalar assms show ?thesis
      by (auto simp: visitNode_def visitScalar_lookup intro: exI[of _ 1])
  qed
qed

lemma visits_keep:
  assumes "iterOrder ord"
  shows "forEach (visitNode ord) ls vs = (ls', e) \<Longrightarrow>
     (map_of (ScalarSetters ls) name = Some s \<longrightarrow>
        (\<exists>c\<ge>0. map_of (ScalarSetters ls') name = Some (s\<lparr>Count_s := Count_s s + c\<rparr>))) \<and>
     (map_of (ArraySetters ls) name = Some a \<longrightarrow>
        (\<exists>c\<ge>0. map_of (ArraySetters ls') name = Some (a\<lparr>Count_a := Count_a a + c\<rparr>)))"
proof (induction vs arbitrary: ls s a)
  case Nil
  then show ?case by (auto intro: exI[of _ 0])
next
  case (Cons v vs)
  obtain ls1 e1 where v1: "visitNode ord ls v = (ls1, e1)" by (cases "visitNode ord ls v")
  have s1: "\<exists>c\<ge>0. map_of (ScalarSetters ls1) name = Some (s\<lparr>Count_s := Count_s s + c\<rparr>)"
    if "map_of (ScalarSetters ls) name = Some s"
    using visitNode_keeps_scalar[OF assms that, of v] v1 by simp
  have a1: "\<exists>c\<ge>0. map_of (ArraySetters ls1) name = Some (a\<lparr>Count_a := Count_a a + c\<rparr>)"
    if "map_of (ArraySetters ls) name = Some a"
    using visitNode_keeps_array[OF assms that, of v] v1 by simp
  show ?case
  proof (cases e1)
    case (Some err)
    with Cons.prems v1 have "ls' = ls1" by simp
    with s1 a1 show ?thesis by blast
  next
    case None
    with Cons.prems v1 have rest: "forEach (visitNode ord) ls1 vs = (ls', e)" by simp
    show ?thesis
    proof (intro conjI impI)
      assume "map_of (ScalarSetters ls) name = Some s"
      from s1[OF this] obtain c where c: "c \<ge> 0"
        "map_of (ScalarSetters ls1) name = Some (s\<lparr>Count_s := Count_s s + c\<rparr>)" by blast
      from Cons.IH[OF rest, of "s\<lparr>Count_s := Count_s s + c\<rparr>"] c(2)
      obtain d where d: "d \<ge> 0" "map_of (ScalarSetters ls') name =
          Some (s\<lparr>Count_s := Count_s s + c\<rparr>\<lparr>Count_s := Count_s (s\<lparr>Count_s := Count_s s + c\<rparr>) + d\<rparr>)"
        by blast
      then have "map_of (ScalarSetters ls') name = Some (s\<lparr>Count_s := Count_s s + (c + d)\<rparr>)"
        by (simp add: add.assoc)
      with c(1) d(1) show "\<exists>c\<ge>0. map_of (ScalarSetters ls') name = Some (s\<lparr>Count_s := Count_s s + c\<rparr>)"
        by (intro exI[of _ "c + d"]) simp
    next
      assume "map_of (ArraySetters ls) name = Some a"
      from a1[OF this] obtain c where c: "c \<ge> 0"
        "map_of (ArraySetters ls1) name = Some (a\<lparr>Count_a := Count_a a + c\<rparr>)" by blast
      from Cons.IH[OF rest, of _ "a\<lparr>Count_a := Count_a a + c\<rparr>"] c(2)
      obtain d where d: "d \<ge> 0" "map_of (ArraySetters ls') name =
          Some (a\<lparr>Count_a := Count_a a + c\<rparr>\<lparr>Count_a := Count_a (a\<lparr>Count_a := Count_a a + c\<rparr>) + d\<rparr>)"
        by blast
      then have "map_of (ArraySetters ls') name = Some (a\<lparr>Count_a := Count_a a + (c + d)\<rparr>)"
        by (simp add: add.assoc)
      with c(1) d(1) show "\<exists>c\<ge>0. map_of (ArraySetters ls') name = Some (a\<lparr>Count_a := Count_a a + c\<rparr>)"
        by (intro exI[of _ "c + d"]) simp
    qed
  qed
qed

subsection \<open>Seeding from the manifest\<close>

lemma addKptfileSetter_lookup_array:
  "map_of (ArraySetters (addKptfileSetter Parse String (k, v) ls)) k' =
     (case getArraySetterValues Parse String v of
        Inr vs \<Rightarrow>
          if k' = k then Some \<lparr>Name_a = k, Values_a = vs, Count_a = 0\<rparr>
          else map_of (ArraySetters ls) k'
      | Inl err \<Rightarrow> map_of (ArraySetters ls) k')"
  by (auto simp: addKptfileSetter_def update_conv' split: sum.splits)

lemma addKptfileSetter_lookup_scalar:
  "map_of (ScalarSetters (addKptfileSetter Parse String (k, v) ls)) k' =
     (case getArraySetterValues Parse String v of
        Inr vs \<Rightarrow> map_of (ScalarSetters ls) k'
      | Inl err \<Rightarrow>
          if k' = k then Some \<lparr>Name_s = k, Value_s = v, Count_s = 0\<rparr>
          else map_of (ScalarSetters ls) k')"
  by (auto simp: addKptfileSetter_def update_conv' split: sum.splits)

lemma addKptfileSetter_frame:
  "Warnings (addKptfileSetter Parse String kv ls) = Warnings ls"
  "filePath (addKptfileSetter Parse String kv ls) = filePath ls"
  by (auto simp: addKptfileSetter_def Let_def split: sum.splits)

lemma fold_addKptfileSetter_frame:
  "Warnings (fold (addKptfileSetter Parse String) kvs ls) = Warnings ls"
  "filePath (fold (addKptfileSetter Parse String) kvs ls) = filePath ls"
  by (induction kvs arbitrary: ls) (auto simp: addKptfileSetter_frame)

lemma fold_addKptfileSetter_lookup_array:
  "distinct (map fst kvs) \<Longrightarrow>
   map_of (ArraySetters (fold (addKptfileSetter Parse String) kvs ls)) k =
     (case map_of kvs k of
        None \<Rightarrow> map_of (ArraySetters ls) k
      | Some v \<Rightarrow>
          (case getArraySetterValues Parse String v of
             Inr vs \<Rightarrow> Some \<lparr>Name_a = k, Values_a = vs, Count_a = 0\<rparr>
           | Inl err \<Rightarrow> map_of (ArraySetters ls) k))"
proof (induction kvs arbitrary: ls)
  case Nil
  then show ?case by simp
next
  case (Cons kv kvs)
  obtain k0 v0 where kv: "kv = (k0, v0)" by (cases kv)
  from Cons.prems kv have d: "distinct (map fst kvs)" and n: "map_of kvs k0 = None"
    by (auto simp: map_of_eq_None_iff)
  show ?case
  proof (cases "k = k0")
    case True
    with n kv show ?thesis
      using Cons.IH[OF d, of "addKptfileSetter Parse String (k0, v0) ls"]
      by (simp add: addKptfileSetter_lookup_array split: sum.splits)
  next
    case False
    then have "map_of (ArraySetters (addKptfileSetter Parse String (k0, v0) ls)) k =
        map_of (ArraySetters ls) k"
      by (simp add: addKptfileSetter_lookup_array split: sum.splits)
    with False kv show ?thesis
      using Cons.IH[OF d, of "addKptfileSetter Parse String (k0, v0) ls"]
      by (simp cong: option.case_cong sum.case_cong)
  qed
qed

lemma fold_addKptfileSetter_lookup_scalar:
  "distinct (map fst kvs) \<Longrightarrow>
   map_of (ScalarSetters (fold (addKptfileSetter Parse String) kvs ls)) k =
     (case map_of kvs k of
        None \<Rightarrow> map_of (ScalarSetters ls) k
      | Some v \<Rightarrow>
          (case getArraySetterValues Parse String v of
             Inr vs \<Rightarrow> map_of (ScalarSetters ls) k
           | Inl err \<Rightarrow> Some \<lparr>Name_s = k, Value_s = v, Count_s = 0\<rparr>))"
proof (induction kvs arbitrary: ls)
  case Nil
  then show ?case by simp
next
  case (Cons kv kvs)
  obtain k0 v0 where kv: "kv = (k0, v0)" by (cases kv)
  from Cons.prems kv have d: "distinct (map fst kvs)" and n: "map_of kvs k0 = None"
    by (auto simp: map_of_eq_None_iff)
  show ?case
  proof (cases "k = k0")
    case True
    with n kv show ?thesis
      using Cons.IH[OF d, of "addKptfileSetter Parse String (k0, v0) ls"]
      by (simp add: addKptfileSetter_lookup_scalar split: sum.splits)
  next
    case False
    then have "map_of (ScalarSetters (addKptfileSetter Parse String (k0, v0) ls)) k =
        map_of (ScalarSetters ls) k"
      by (simp add: addKptfileSetter_lookup_scalar split: sum.splits)
    with False kv show ?thesis
      using Cons.IH[OF d, of "addKptfileSetter Parse String (k0, v0) ls"]
      by (simp cong: option.case_cong sum.case_cong)
  qed
qed

lemma addKptfileSetters_lookup_array:
  assumes "iterOrder ord" "distinct (map fst s)"
  shows "map_of (ArraySetters (addKptfileSetters ord Parse String ls s)) k =
     (case map_of s k of
        None \<Rightarrow> map_of (ArraySetters ls) k
      | Some v \<Rightarrow>
          (case getArraySetterValues Parse String v of
             Inr vs \<Rightarrow> Some \<lparr>Name_a = k, Values_a = vs, Count_a = 0\<rparr>
           | Inl err \<Rightarrow> map_of (ArraySetters ls) k))"
  using assms
  by (simp add: addKptfileSetters_def fold_addKptfileSetter_lookup_array
      rangeMap_distinct_keys rangeMap_map_of)

lemma addKptfileSetters_lookup_scalar:
  assumes "iterOrder ord" "distinct (map fst s)"
  shows "map_of (ScalarSetters (addKptfileSetters ord Parse String ls s)) k =
     (case map_of s k of
        None \<Rightarrow> map_of (ScalarSetters ls) k
      | Some v \<Rightarrow>
          (case getArraySetterValues Parse String v of
             Inr vs \<Rightarrow> map_of (ScalarSetters ls) k
           | Inl err \<Rightarrow> Some \<lparr>Name_s = k, Value_s = v, Count_s = 0\<rparr>))"
  using assms
  by (simp add: addKptfileSetters_def fold_addKptfileSetter_lookup_scalar
      rangeMap_distinct_keys rangeMap_map_of)

lemma addKptfileSetters_frame:
  "Warnings (addKptfileSetters ord Parse String ls s) = Warnings ls"
  "filePath (addKptfileSetters ord Parse String ls s) = filePath ls"
  by (simp_all add: addKptfileSetters_def fold_addKptfileSetter_frame)



subsection \<open>The discovery pass\<close>

lemma fold_addKptfileSetter_other_array:
  "k \<notin> fst ` set kvs \<Longrightarrow>
   map_of (ArraySetters (fold (addKptfileSetter Parse String) kvs ls)) k =
     map_of (ArraySetters ls) k"
proof (induction kvs arbitrary: ls)
  case Nil
  then show ?case by simp
next
  case (Cons kv kvs)
  obtain k0 v0 where kv: "kv = (k0, v0)" by (cases kv)
  with Cons.prems have "k \<noteq> k0" "k \<notin> fst ` set kvs" by auto
  with kv Cons.IH[of "addKptfileSetter Parse String (k0, v0) ls"] show ?case
    by (simp add: addKptfileSetter_lookup_array split: sum.splits)
qed

lemma addKptfileSetters_other_array:
  "iterOrder ord \<Longrightarrow> k \<notin> fst ` set s \<Longrightarrow>
   map_of (ArraySetters (addKptfileSetters ord Parse String ls s)) k = map_of (ArraySetters ls) k"
  by (simp add: addKptfileSetters_def fold_addKptfileSetter_other_array rangeMap_set)

lemma accept_array_lookup:
  assumes "iterOrder ord" "accept ord ls t = (ls', None)"
  shows "map_of (ArraySetters ls') name =
     countedArray name (fieldsNamed name (walk t)) (map_of (ArraySetters ls) name)"
  using assms by (simp add: accept_def visits_array_lookup)

lemma walkAll_Cons: "walkAll (n # rest) = walk (YNode n) @ walkAll rest"
  by (simp add: walkAll_def)

lemma discover_array_lookup:
  assumes "iterOrder ord"
  shows "discoverFromConfig ord nodes ls rest = (ls', out, None) \<Longrightarrow>
     map_of (ArraySetters ls') name =
       countedArray name (fieldsNamed name (walkAll rest)) (map_of (ArraySetters ls) name) \<and>
     out = Some nodes"
proof (induction rest arbitrary: ls)
  case Nil
  then show ?case by (simp add: walkAll_def fieldsNamed_def)
next
  case (Cons n rest)
  from Cons.prems obtain path where p: "GetFileAnnotations n = Inr path"
    by (auto split: sum.splits)
  obtain ls1 e1 where a: "accept ord (ls\<lparr>filePath := path\<rparr>) (YNode n) = (ls1, e1)"
    by (cases "accept ord (ls\<lparr>filePath := path\<rparr>) (YNode n)")
  with Cons.prems p have e1: "e1 = None" and r: "discoverFromConfig ord nodes ls1 rest = (ls', out, None)"
    by (auto split: option.splits)
  from accept_array_lookup[OF assms a[unfolded e1], of name]
  have "map_of (ArraySetters ls1) name =
     countedArray name (fieldsNamed name (walk (YNode n))) (map_of (ArraySetters ls) name)"
    by simp
  with Cons.IH[OF r] show ?case
    by (simp add: walkAll_Cons fieldsNamed_append countedArray_append)
qed

lemma accept_scalar_lookup:
  assumes "iterOrder ord" "accept ord ls t = (ls', None)"
  shows "map_of (ScalarSetters ls') name =
     countedScalar name (valuesNamed name (walk t)) (map_of (ScalarSetters ls) name)"
  using assms by (simp add: accept_def visits_scalar_lookup)

lemma discover_scalar_lookup:
  assumes "iterOrder ord"
  shows "discoverFromConfig ord nodes ls rest = (ls', out, None) \<Longrightarrow>
     map_of (ScalarSetters ls') name =
       countedScalar name (valuesNamed name (walkAll rest)) (map_of (ScalarSetters ls) name)"
proof (induction rest arbitrary: ls)
  case Nil
  then show ?case by (simp add: walkAll_def)
next
  case (Cons n rest)
  from Cons.prems obtain path where p: "GetFileAnnotations n = Inr path"
    by (auto split: sum.splits)
  obtain ls1 e1 where a: "accept ord (ls\<lparr>filePath := path\<rparr>) (YNode n) = (ls1, e1)"
    by (cases "accept ord (ls\<lparr>filePath := path\<rparr>) (YNode n)")
  with Cons.prems p have e1: "e1 = None" and r: "discoverFromConfig ord nodes ls1 rest = (ls', out, None)"
    by (auto split: option.splits)
  from accept_scalar_lookup[OF assms a[unfolded e1], of name]
  have "map_of (ScalarSetters ls1) name =
     countedScalar name (valuesNamed name (walk (YNode n))) (map_of (ScalarSetters ls) name)"
    by simp
  with Cons.IH[OF r] show ?case
    by (simp add: walkAll_Cons valuesNamed_append countedScalar_append)
qed

lemma Filter_cases:
  "Filter ord Parse String ls nodes =
     (case FindSettersFromKptfile nodes of
        Inl (Discovery d) \<Rightarrow> discoverFromConfig ord nodes (ls\<lparr>Warnings := Warnings ls @ [d]\<rparr>) nodes
      | Inl (Failure err) \<Rightarrow> (ls, Some nodes, Some (Failure err))
      | Inr s \<Rightarrow> discoverFromConfig ord nodes (addKptfileSetters ord Parse String ls s) nodes)"
  by (simp add: Filter_def)


subsection \<open>Well-formed registries\<close>

lemma wellFormed_New: "wellFormed New"
  by (simp add: wellFormed_def New_def)

lemma list_all_update:
  "list_all (\<lambda>kv. P (fst kv) (snd kv)) al \<Longrightarrow> P k v \<Longrightarrow>
   list_all (\<lambda>kv. P (fst kv) (snd kv)) (AList.update k v al)"
  by (induction al) auto

lemma list_all_map_of:
  "list_all (\<lambda>kv. P (fst kv) (snd kv)) al \<Longrightarrow> map_of al k = Some v \<Longrightarrow> P k v"
  by (induction al) (auto split: if_splits)

lemma wellFormed_addScalar: "wellFormed ls \<Longrightarrow> wellFormed (addScalar kv ls)"
  unfolding wellFormed_def addScalar_def Let_def
  by (auto simp: distinct_update split: option.splits
      intro!: list_all_update[where P="\<lambda>k v. Name_s v = k"]
      dest: list_all_map_of[where P="\<lambda>k v. Name_s v = k"])

lemma wellFormed_addArray: "wellFormed ls \<Longrightarrow> wellFormed (addArray name vals ls)"
  unfolding wellFormed_def addArray_def
  by (auto simp: distinct_update split: option.splits
      intro!: list_all_update[where P="\<lambda>k v. Name_a v = k"]
      dest: list_all_map_of[where P="\<lambda>k v. Name_a v = k"])

lemma wellFormed_addKptfileSetter:
  "wellFormed ls \<Longrightarrow> wellFormed (addKptfileSetter Parse String kv ls)"
  unfolding wellFormed_def addKptfileSetter_def Let_def
  by (auto simp: distinct_update split: sum.splits
      intro!: list_all_update[where P="\<lambda>k v. Name_a v = k"]
        list_all_update[where P="\<lambda>k v. Name_s v = k"])

lemma wellFormed_fold:
  "(\<And>x s. P s \<Longrightarrow> P (f x s)) \<Longrightarrow> P s \<Longrightarrow> P (fold f xs s)"
  by (induction xs arbitrary: s) auto

lemma wellFormed_visitScalar:
  "iterOrder ord \<Longrightarrow> wellFormed ls \<Longrightarrow> wellFormed (fst (visitScalar ord ls object))"
  by (simp add: visitScalar_eq wellFormed_fold[of wellFormed addScalar] wellFormed_addScalar)

lemma wellFormed_visitField: "wellFormed ls \<Longrightarrow> wellFormed (fst (visitField ls node))"
  by (simp add: visitField_eq wellFormed_addArray split: option.splits)

lemma wellFormed_fold_visitField:
  "wellFormed ls \<Longrightarrow> wellFormed (fold (\<lambda>x s. fst (visitField s x)) fs ls)"
  by (rule wellFormed_fold) (simp_all add: wellFormed_visitField)

lemma wellFormed_visitMapping: "wellFormed ls \<Longrightarrow> wellFormed (fst (visitMapping ls n))"
  using visitMapping_fold[of ls n] by (auto simp: wellFormed_fold_visitField)

lemma wellFormed_visitNode:
  "iterOrder ord \<Longrightarrow> wellFormed ls \<Longrightarrow> wellFormed (fst (visitNode ord ls v))"
  by (cases v) (simp_all add: visitNode_def wellFormed_visitScalar wellFormed_visitMapping)

lemma forEach_invariant:
  "(\<And>s x. P s \<Longrightarrow> P (fst (f s x))) \<Longrightarrow> P s \<Longrightarrow> P (fst (forEach f s xs))"
proof (induction xs arbitrary: s)
  case Nil
  then show ?case by simp
next
  case (Cons x xs)
  obtain s' e where fx: "f s x = (s', e)" by (cases "f s x")
  with Cons.prems(1)[OF Cons.prems(2), of x] have "P s'" by simp
  with fx Cons.IH[OF Cons.prems(1), of s'] show ?case by (cases e) auto
qed

lemma wellFormed_accept:
  "iterOrder ord \<Longrightarrow> wellFormed ls \<Longrightarrow> wellFormed (fst (accept ord ls t))"
  unfolding accept_def by (rule forEach_invariant) (simp_all add: wellFormed_visitNode)

lemma wellFormed_filePath: "wellFormed (ls\<lparr>filePath := p\<rparr>) = wellFormed ls"
  by (simp add: wellFormed_def)

lemma wellFormed_Warnings: "wellFormed (ls\<lparr>Warnings := w\<rparr>) = wellFormed ls"
  by (simp add: wellFormed_def)

lemma wellFormed_discover:
  assumes "iterOrder ord"
  shows "wellFormed ls \<Longrightarrow> wellFormed (fst (discoverFromConfig ord nodes ls rest))"
proof (induction rest arbitrary: ls)
  case Nil
  then show ?case by simp
next
  case (Cons n rest)
  show ?case
  proof (cases "GetFileAnnotations n")
    case (Inl err)
    with Cons.prems show ?thesis by simp
  next
    case (Inr path)
    obtain ls1 e1 where a: "accept ord (ls\<lparr>filePath := path\<rparr>) (YNode n) = (ls1, e1)"
      by (cases "accept ord (ls\<lparr>filePath := path\<rparr>) (YNode n)")
    from wellFormed_accept[OF assms, of "ls\<lparr>filePath := path\<rparr>" "YNode n"] Cons.prems a
    have "wellFormed ls1" by (simp add: wellFormed_filePath)
    with Inr a Cons.IH[of ls1] show ?thesis by (cases e1) auto
  qed
qed

lemma wellFormed_addKptfileSetters:
  "wellFormed ls \<Longrightarrow> wellFormed (addKptfileSetters ord Parse String ls s)"
  unfolding addKptfileSetters_def
  by (rule wellFormed_fold) (simp_all add: wellFormed_addKptfileSetter)

lemma wellFormed_Filter:
  "iterOrder ord \<Longrightarrow> wellFormed ls \<Longrightarrow> wellFormed (fst (Filter ord Parse String ls nodes))"
  by (auto simp: Filter_cases wellFormed_discover wellFormed_addKptfileSetters
      wellFormed_Warnings split: sum.splits error.splits)

subsection \<open>Independence of the order of map iteration\<close>

lemma sameSetters_refl: "sameSetters a a"
  by (simp add: sameSetters_def)

lemma visitScalar_same:
  assumes "iterOrder ord1" "iterOrder ord2" "sameSetters a b"
  shows "sameSetters (fst (visitScalar ord1 a n)) (fst (visitScalar ord2 b n))"
proof -
  have "map_of (ScalarSetters (fst (visitScalar ord1 a n))) k =
        map_of (ScalarSetters (fst (visitScalar ord2 b n))) k" for k
    using assms by (simp add: visitScalar_lookup sameSetters_def cong: option.case_cong)
  then have "map_of (ScalarSetters (fst (visitScalar ord1 a n))) =
        map_of (ScalarSetters (fst (visitScalar ord2 b n)))" by (rule ext)
  with assms show ?thesis by (simp add: sameSetters_def visitScalar_frame)
qed

lemma visitField_same:
  assumes "sameSetters a b"
  shows "sameSetters (fst (visitField a n)) (fst (visitField b n))"
proof -
  have "map_of (ArraySetters (fst (visitField a n))) k =
        map_of (ArraySetters (fst (visitField b n))) k" for k
    using assms by (simp add: visitField_lookup sameSetters_def cong: option.case_cong)
  then have "map_of (ArraySetters (fst (visitField a n))) =
        map_of (ArraySetters (fst (visitField b n)))" by (rule ext)
  with assms show ?thesis by (simp add: sameSetters_def visitField_frame)
qed

lemma fold_visitField_same:
  "sameSetters a b \<Longrightarrow>
   sameSetters (fold (\<lambda>x s. fst (visitField s x)) fs a) (fold (\<lambda>x s. fst (visitField s x)) fs b)"
  by (induction fs arbitrary: a b) (simp_all add: visitField_same)

lemma forEach_related:
  assumes "\<And>s t x. R s t \<Longrightarrow> R (fst (f s x)) (fst (g t x)) \<and> snd (f s x) = snd (g t x)"
  shows "R s t \<Longrightarrow> R (fst (forEach f s xs)) (fst (forEach g t xs)) \<and>
         snd (forEach f s xs) = snd (forEach g t xs)"
proof (induction xs arbitrary: s t)
  case Nil
  then show ?case by simp
next
  case (Cons x xs)
  obtain s' e where fx: "f s x = (s', e)" by (cases "f s x")
  obtain t' e' where gx: "g t x = (t', e')" by (cases "g t x")
  from assms[OF Cons.prems, of x] fx gx have r: "R s' t'" and e: "e' = e" by simp_all
  show ?case
  proof (cases e)
    case None
    with fx gx e Cons.IH[OF r] show ?thesis by simp
  next
    case (Some err)
    with fx gx e r show ?thesis by simp
  qed
qed

lemma visitFieldNamed_same:
  assumes "sameSetters a b"
  shows "sameSetters (fst (visitFieldNamed n a x)) (fst (visitFieldNamed n b x)) \<and>
         snd (visitFieldNamed n a x) = snd (visitFieldNamed n b x)"
  using assms
  by (auto simp: visitFieldNamed_def visitField_same visitField_frame
      split: sum.splits option.splits)

lemma visitMapping_same:
  assumes "sameSetters a b"
  shows "sameSetters (fst (visitMapping a n)) (fst (visitMapping b n)) \<and>
         snd (visitMapping a n) = snd (visitMapping b n)"
proof (cases "Fields n")
  case (Inl err)
  with assms show ?thesis by (simp add: visitMapping_def)
next
  case (Inr names)
  from forEach_related[where R=sameSetters and f="visitFieldNamed n" and g="visitFieldNamed n",
      OF visitFieldNamed_same assms, of names] Inr
  show ?thesis by (simp add: visitMapping_def)
qed

lemma visitNode_same:
  assumes "iterOrder ord1" "iterOrder ord2" "sameSetters a b"
  shows "sameSetters (fst (visitNode ord1 a v)) (fst (visitNode ord2 b v)) \<and>
         snd (visitNode ord1 a v) = snd (visitNode ord2 b v)"
  using assms
  by (cases v) (simp_all add: visitNode_def visitMapping_same visitScalar_same visitScalar_frame)

lemma accept_same:
  assumes "iterOrder ord1" "iterOrder ord2" "sameSetters a b"
  shows "sameSetters (fst (accept ord1 a t)) (fst (accept ord2 b t)) \<and>
         snd (accept ord1 a t) = snd (accept ord2 b t)"
  unfolding accept_def
  by (rule forEach_related[where R=sameSetters, OF visitNode_same[OF assms(1,2)] assms(3)])

lemma sameSetters_filePath:
  "sameSetters a b \<Longrightarrow> sameSetters (a\<lparr>filePath := p\<rparr>) (b\<lparr>filePath := p\<rparr>)"
  by (simp add: sameSetters_def)

lemma sameSetters_Warnings:
  "sameSetters a b \<Longrightarrow> sameSetters (a\<lparr>Warnings := Warnings a @ w\<rparr>) (b\<lparr>Warnings := Warnings b @ w\<rparr>)"
  by (simp add: sameSetters_def)

lemma discover_same:
  assumes "iterOrder ord1" "iterOrder ord2"
  shows "sameSetters a b \<Longrightarrow>
     sameSetters (fst (discoverFromConfig ord1 nodes a rest))
       (fst (discoverFromConfig ord2 nodes b rest)) \<and>
     snd (discoverFromConfig ord1 nodes a rest) = snd (discoverFromConfig ord2 nodes b rest)"
proof (induction rest arbitrary: a b)
  case Nil
  then show ?case by simp
next
  case (Cons n rest)
  show ?case
  proof (cases "GetFileAnnotations n")
    case (Inl err)
    with Cons.prems show ?thesis by simp
  next
    case (Inr path)
    obtain a1 e1 where a: "accept ord1 (a\<lparr>filePath := path\<rparr>) (YNode n) = (a1, e1)"
      by (cases "accept ord1 (a\<lparr>filePath := path\<rparr>) (YNode n)")
    obtain b1 e2 where b: "accept ord2 (b\<lparr>filePath := path\<rparr>) (YNode n) = (b1, e2)"
      by (cases "accept ord2 (b\<lparr>filePath := path\<rparr>) (YNode n)")
    from accept_same[OF assms sameSetters_filePath[OF Cons.prems], of path "YNode n"] a b
    have s: "sameSetters a1 b1" and e: "e2 = e1" by simp_all
    show ?thesis
    proof (cases e1)
      case None
      with Inr a b e Cons.IH[OF s] show ?thesis by simp
    next
      case (Some err)
      with Inr a b e s show ?thesis by simp
    qed
  qed
qed

lemma addKptfileSetters_same:
  assumes "iterOrder ord1" "iterOrder ord2" "distinct (map fst s)" "sameSetters a b"
  shows "sameSetters (addKptfileSetters ord1 Parse String a s)
           (addKptfileSetters ord2 Parse String b s)"
proof -
  have "map_of (ArraySetters (addKptfileSetters ord1 Parse String a s)) k =
        map_of (ArraySetters (addKptfileSetters ord2 Parse String b s)) k" for k
    using assms
    by (simp add: addKptfileSetters_lookup_array sameSetters_def
        cong: option.case_cong sum.case_cong)
  then have 1: "map_of (ArraySetters (addKptfileSetters ord1 Parse String a s)) =
        map_of (ArraySetters (addKptfileSetters ord2 Parse String b s))" by (rule ext)
  have "map_of (ScalarSetters (addKptfileSetters ord1 Parse String a s)) k =
        map_of (ScalarSetters (addKptfileSetters ord2 Parse String b s)) k" for k
    using assms
    by (simp add: addKptfileSetters_lookup_scalar sameSetters_def
        cong: option.case_cong sum.case_cong)
  then have 2: "map_of (ScalarSetters (addKptfileSetters ord1 Parse String a s)) =
        map_of (ScalarSetters (addKptfileSetters ord2 Parse String b s))" by (rule ext)
  from 1 2 assms(4) show ?thesis by (simp add: sameSetters_def addKptfileSetters_frame)
qed

lemma Filter_same:
  assumes "iterOrder ord1" "iterOrder ord2"
    and "\<And>s. FindSettersFromKptfile nodes = Inr s \<Longrightarrow> distinct (map fst s)"
    and "sameSetters a b"
  shows "sameSetters (fst (Filter ord1 Parse String a nodes)) (fst (Filter ord2 Parse String b nodes)) \<and>
         snd (Filter ord1 Parse String a nodes) = snd (Filter ord2 Parse String b nodes)"
proof (cases "FindSettersFromKptfile nodes")
  case (Inl err)
  show ?thesis
  proof (cases err)
    case (Discovery d)
    with Inl discover_same[OF assms(1,2) sameSetters_Warnings[OF assms(4), of "[d]"], of nodes nodes]
    show ?thesis by (simp add: Filter_cases)
  next
    case (Failure m)
    with Inl assms(4) show ?thesis by (simp add: Filter_cases)
  qed
next
  case (Inr s)
  from addKptfileSetters_same[OF assms(1,2) assms(3)[OF Inr] assms(4)]
  have "sameSetters (addKptfileSetters ord1 Parse String a s)
           (addKptfileSetters ord2 Parse String b s)" .
  from discover_same[OF assms(1,2) this, of nodes nodes] Inr show ?thesis
    by (simp add: Filter_cases)
qed

lemma filter_key_map_of:
  "distinct (map fst xs) \<Longrightarrow>
   filter (\<lambda>kv. fst kv = c) xs = (case map_of xs c of None \<Rightarrow> [] | Some e \<Rightarrow> [(c, e)])"
proof (induction xs)
  case Nil
  then show ?case by simp
next
  case (Cons x xs)
  obtain k e where x: "x = (k, e)" by (cases x)
  show ?case
  proof (cases "k = c")
    case True
    with Cons.prems x have "map_of xs c = None" by (auto simp: map_of_eq_None_iff)
    with Cons x True show ?thesis by simp
  next
    case False
    with Cons x show ?thesis by simp
  qed
qed

lemma filter_named:
  assumes "distinct (map fst xs)" "list_all (\<lambda>kv. nm (snd kv) = fst kv) xs"
    and that: "\<And>e. nmr (f e) = nm e"
  shows "filter (\<lambda>r. c = nmr r) (map (f \<circ> snd) xs) =
     (case map_of xs c of None \<Rightarrow> [] | Some e \<Rightarrow> [f e])"
proof -
  have "filter (\<lambda>r. c = nmr r) (map (f \<circ> snd) xs) =
      map (f \<circ> snd) (filter (\<lambda>kv. c = nm (snd kv)) xs)"
    by (simp add: filter_map o_def that del: map_map)
  also have "filter (\<lambda>kv. c = nm (snd kv)) xs = filter (\<lambda>kv. fst kv = c) xs"
    using assms(2) by (intro filter_cong) (auto simp: list_all_iff)
  also have "\<dots> = (case map_of xs c of None \<Rightarrow> [] | Some e \<Rightarrow> [(c, e)])"
    using assms(1) by (rule filter_key_map_of)
  finally show ?thesis by (simp add: comp_def split: option.splits)
qed

lemma rangeMap_list_all:
  "iterOrder ord \<Longrightarrow> list_all P (rangeMap ord m) = list_all P m"
  by (simp add: list_all_iff rangeMap_set)

lemma GetResults_filter:
  assumes "iterOrder ord" "wellFormed ls"
  shows "filter (\<lambda>r. c = Name_r r) 
       (map (arrayResult \<circ> snd) (rangeMap ord (ArraySetters ls)) @
        map (scalarResult \<circ> snd) (rangeMap ord (ScalarSetters ls))) =
     (case map_of (ArraySetters ls) c of None \<Rightarrow> [] | Some e \<Rightarrow> [arrayResult e]) @
     (case map_of (ScalarSetters ls) c of None \<Rightarrow> [] | Some e \<Rightarrow> [scalarResult e])"
proof -
  from assms have d: "distinct (map fst (rangeMap ord (ArraySetters ls)))"
      "distinct (map fst (rangeMap ord (ScalarSetters ls)))"
    and n: "list_all (\<lambda>kv. Name_a (snd kv) = fst kv) (rangeMap ord (ArraySetters ls))"
      "list_all (\<lambda>kv. Name_s (snd kv) = fst kv) (rangeMap ord (ScalarSetters ls))"
    and m: "map_of (rangeMap ord (ArraySetters ls)) = map_of (ArraySetters ls)"
      "map_of (rangeMap ord (ScalarSetters ls)) = map_of (ScalarSetters ls)"
    by (simp_all add: wellFormed_def rangeMap_distinct_keys rangeMap_list_all rangeMap_map_of)
  have a: "filter (\<lambda>r. c = Name_r r) (map (arrayResult \<circ> snd) (rangeMap ord (ArraySetters ls))) =
      (case map_of (ArraySetters ls) c of None \<Rightarrow> [] | Some e \<Rightarrow> [arrayResult e])"
    using filter_named[OF d(1) n(1), of Name_r arrayResult c] m(1)
    by (simp add: arrayResult_def)
  have s: "filter (\<lambda>r. c = Name_r r) (map (scalarResult \<circ> snd) (rangeMap ord (ScalarSetters ls))) =
      (case map_of (ScalarSetters ls) c of None \<Rightarrow> [] | Some e \<Rightarrow> [scalarResult e])"
    using filter_named[OF d(2) n(2), of Name_r scalarResult c] m(2)
    by (simp add: scalarResult_def)
  from a s show ?thesis by simp
qed

lemma distinct_keys_mset:
  assumes "distinct (map fst xs)" "distinct (map fst ys)" "map_of xs = map_of ys"
  shows "mset xs = mset ys"
proof -
  from assms have "set xs = set ys" by (simp add: map_of_inject_set)
  moreover from assms have "distinct xs" "distinct ys" by (auto simp: distinct_map)
  ultimately show ?thesis by (simp add: set_eq_iff_mset_eq_distinct)
qed

lemma GetResults_same:
  assumes "iterOrder ord1" "iterOrder ord2" "wellFormed a" "wellFormed b" "sameSetters a b"
  shows "GetResults ord1 a = GetResults ord2 b"
proof -
  let ?xs = "map (arrayResult \<circ> snd) (rangeMap ord1 (ArraySetters a)) @
        map (scalarResult \<circ> snd) (rangeMap ord1 (ScalarSetters a))"
  let ?ys = "map (arrayResult \<circ> snd) (rangeMap ord2 (ArraySetters b)) @
        map (scalarResult \<circ> snd) (rangeMap ord2 (ScalarSetters b))"
  from assms have "mset (ArraySetters a) = mset (ArraySetters b)"
    "mset (ScalarSetters a) = mset (ScalarSetters b)"
    by (auto simp: wellFormed_def sameSetters_def intro: distinct_keys_mset)
  with assms(1,2) have "mset (rangeMap ord1 (ArraySetters a)) = mset (rangeMap ord2 (ArraySetters b))"
    "mset (rangeMap ord1 (ScalarSetters a)) = mset (rangeMap ord2 (ScalarSetters b))"
    by (simp_all add: rangeMap_mset)
  then have ms: "mset ?xs = mset ?ys"
    by (metis mset_append mset_map)
  have fl: "filter (\<lambda>r. c = Name_r r) ?xs = filter (\<lambda>r. c = Name_r r) ?ys" for c
    using assms by (simp only: GetResults_filter) (simp add: sameSetters_def)
  have "sort_key Name_r ?xs = sort_key Name_r ?ys"
  proof (rule properties_for_sort_key)
    show "mset (sort_key Name_r ?ys) = mset ?xs" using ms by simp
    show "sorted (map Name_r (sort_key Name_r ?ys))" by simp
    fix k
    assume "k \<in> set (sort_key Name_r ?ys)"
    have eq: "(\<lambda>x. Name_r k = Name_r x) = (\<lambda>x. Name_r x = Name_r k)" by auto
    have "filter (\<lambda>x. Name_r k = Name_r x) (sort_key Name_r ?ys) =
        filter (\<lambda>x. Name_r k = Name_r x) ?ys"
      unfolding eq by (rule sort_key_stable)
    then show "filter (\<lambda>x. Name_r k = Name_r x) (sort_key Name_r ?ys) =
        filter (\<lambda>x. Name_r k = Name_r x) ?xs"
      using fl[of "Name_r k"] by simp
  qed
  then show ?thesis by (simp add: GetResults_def)
qed

subsection \<open>Manifest lookup and errors of the walk\<close>

lemma FindKptfile_missing:
  "\<forall>n\<in>set nodes. PathAnnotation n \<noteq> KptFileName \<Longrightarrow>
   FindKptfile nodes = Inl (Discovery (ErrSetterDiscovery
     ''unable to find Kptfile, please include --include-meta-resources flag if a Kptfile is present''))"
  by (induction nodes) auto

lemma findSetterNode_missing:
  "\<forall>n\<in>set nodes. PathAnnotation n \<noteq> path \<Longrightarrow>
   findSetterNode nodes path =
     Inl (Failure (''file '' @ path @ '' doesn'' @ [CHR 0x27] @
       ''t exist, please ensure the file specified in '' @ [CHR 0x22] @ ''configPath'' @
       [CHR 0x22] @ '' exists and retry''))"
  by (induction nodes) auto

lemma mutatorSetters_skip:
  "\<forall>f\<in>set pre. \<not> Contains (Image f) ''apply-setters'' \<Longrightarrow>
   mutatorSetters nodes (pre @ rest) = mutatorSetters nodes rest"
  by (induction pre) auto

lemma mutatorSetters_none:
  "\<forall>f\<in>set fns. \<not> Contains (Image f) ''apply-setters'' \<Longrightarrow>
   mutatorSetters nodes fns =
     Inl (Discovery (ErrSetterDiscovery
       ''unable to find apply-setters fn in Kptfile Pipeline.Mutators''))"
  using mutatorSetters_skip[of fns nodes "[]"] by simp

lemma visitNode_Warnings:
  "iterOrder ord \<Longrightarrow> Warnings (fst (visitNode ord ls v)) = Warnings ls"
  by (cases v) (simp_all add: visitNode_def visitScalar_frame visitMapping_frame)

lemma accept_Warnings:
  assumes "iterOrder ord"
  shows "Warnings (fst (accept ord ls t)) = Warnings ls"
proof -
  have "Warnings (fst (forEach (visitNode ord) ls (walk t))) = Warnings ls"
    by (rule forEach_invariant[where P="\<lambda>s. Warnings s = Warnings ls"])
      (simp_all add: visitNode_Warnings[OF assms])
  then show ?thesis by (simp add: accept_def)
qed

lemma discover_Warnings:
  assumes "iterOrder ord"
  shows "Warnings (fst (discoverFromConfig ord nodes ls rest)) = Warnings ls"
proof (induction rest arbitrary: ls)
  case Nil
  then show ?case by simp
next
  case (Cons n rest)
  show ?case
  proof (cases "GetFileAnnotations n")
    case (Inl err)
    then show ?thesis by simp
  next
    case (Inr path)
    obtain ls1 e1 where a: "accept ord (ls\<lparr>filePath := path\<rparr>) (YNode n) = (ls1, e1)"
      by (cases "accept ord (ls\<lparr>filePath := path\<rparr>) (YNode n)")
    from accept_Warnings[OF assms, of "ls\<lparr>filePath := path\<rparr>" "YNode n"] a
    have "Warnings ls1 = Warnings ls" by simp
    with Inr a Cons.IH[of ls1] show ?thesis by (cases e1) auto
  qed
qed

lemma discover_out:
  "discoverFromConfig ord nodes ls rest = (ls', out, None) \<Longrightarrow> out = Some nodes"
proof (induction rest arbitrary: ls)
  case Nil
  then show ?case by simp
next
  case (Cons n rest)
  then show ?case
    by (auto split: sum.splits prod.splits option.splits)
qed

lemma lookupField_even:
  "even (length c) \<Longrightarrow>
   lookupField c f = Inr (find (\<lambda>kv. Value (fst kv) = f) (mapNodes c))"
  by (induction c f rule: lookupField.induct) auto


lemma visitMapping_no_error:
  assumes "Kind n = MappingNode" "even (length (Content n))"
  shows "snd (visitMapping ls n) = None"
proof -
  have f: "Fields n = Inr (fieldNames (Content n))"
    using assms by (simp add: Fields_def ErrorIfInvalid_def)
  have "Field_rn n x = Inr (find (\<lambda>kv. Value (fst kv) = x) (mapNodes (Content n)))" for x
    using assms by (simp add: Field_rn_def lookupField_even)
  then have "snd (visitFieldNamed n s x) = None" for s x
    by (simp add: visitFieldNamed_def visitField_frame split: option.splits)
  from forEach_total[of "visitFieldNamed n", OF this] f show ?thesis
    by (simp add: visitMapping_def)
qed




lemma walk_VisitMapping_Kind: "VisitMapping n \<in> set (walk t) \<Longrightarrow> Kind n = MappingNode"
proof (induction t rule: walk.induct)
  case (1 kind style tag comment val content)
  then show ?case by (cases kind) auto
qed

lemma visits_no_error:
  assumes "iterOrder ord"
  shows "(\<forall>n. VisitMapping n \<in> set vs \<longrightarrow> Kind n = MappingNode \<and> even (length (Content n))) \<Longrightarrow>
     snd (forEach (visitNode ord) ls vs) = None"
proof (induction vs arbitrary: ls)
  case Nil
  then show ?case by simp
next
  case (Cons v vs)
  have "snd (visitNode ord ls v) = None"
  proof (cases v)
    case (VisitMapping n)
    with Cons.prems have "Kind n = MappingNode" "even (length (Content n))" by auto
    with VisitMapping show ?thesis
      by (simp add: visitNode_def visitMapping_no_error)
  next
    case (VisitScalar n)
    with assms show ?thesis by (simp add: visitNode_def visitScalar_frame)
  qed
  moreover obtain ls1 e1 where "visitNode ord ls v = (ls1, e1)" by (cases "visitNode ord ls v")
  ultimately show ?case using Cons.IH[of ls1] Cons.prems by simp
qed

lemma discover_no_error:
  assumes "iterOrder ord"
  shows "(\<forall>n\<in>set rest. \<exists>p. GetFileAnnotations n = Inr p) \<Longrightarrow>
     (\<forall>n. VisitMapping n \<in> set (walkAll rest) \<longrightarrow> even (length (Content n))) \<Longrightarrow>
     snd (snd (discoverFromConfig ord nodes ls rest)) = None"
proof (induction rest arbitrary: ls)
  case Nil
  then show ?case by simp
next
  case (Cons n rest)
  from Cons.prems(1) obtain path where p: "GetFileAnnotations n = Inr path" by auto
  obtain ls1 e1 where a: "accept ord (ls\<lparr>filePath := path\<rparr>) (YNode n) = (ls1, e1)"
    by (cases "accept ord (ls\<lparr>filePath := path\<rparr>) (YNode n)")
  have "\<forall>m. VisitMapping m \<in> set (walk (YNode n)) \<longrightarrow>
      Kind m = MappingNode \<and> even (length (Content m))"
    using Cons.prems(2) by (auto simp: walkAll_Cons walk_VisitMapping_Kind)
  from visits_no_error[OF assms this, of "ls\<lparr>filePath := path\<rparr>"] a
  have "e1 = None" by (simp add: accept_def)
  moreover have "snd (snd (discoverFromConfig ord nodes ls1 rest)) = None"
    using Cons.prems by (intro Cons.IH) (auto simp: walkAll_Cons)
  ultimately show ?case using p a by simp
qed


section \<open>Claims about the resolver\<close>

text \<open>
  C1, as amended: when the placeholders of the pattern are pairwise distinct, no placeholder
  name holds a dollar sign and \<open>currentSetterValues\<close> returns a binding that is not empty,
  putting the bound values into the placeholders of the pattern gives a part of the value,
  the text of the leftmost match. The expression is compiled without anchors, so the part
  need not be the whole value.
\<close>

theorem round_trip:
  "\<forall>ur\<in>set (unresolvedSetters pattern). CHR ''$'' \<notin> set (clean ur) \<Longrightarrow>
   distinct (unresolvedSetters pattern) \<Longrightarrow>
   currentSetterValues pattern value \<noteq> [] \<Longrightarrow>
   \<exists>pre post. value = pre @ substitute (currentSetterValues pattern value) pattern @ post"
proof -
  let ?ts = "tokens pattern"
  let ?hs = "holes ?ts"
  let ?urs = "unresolvedSetters pattern"
  let ?b = "currentSetterValues pattern value"
  assume nd: "\<forall>ur\<in>set ?urs. CHR ''$'' \<notin> set (clean ur)"
    and di: "distinct ?urs" and ne: "?b \<noteq> []"
  have urs: "?urs = map placeholder ?hs" by (rule unresolvedSetters_tokens)
  have cl: "map clean ?urs = ?hs" by (simp add: urs clean_placeholder' comp_def)
  from nd have "\<forall>m\<in>set ?hs. CHR ''$'' \<notin> set m"
    by (simp add: urs clean_placeholder')
  then have r: "Compile (setterRegexp pattern) = Some (map tokenInst ?ts)"
    by (rule Compile_setterRegexp_tokens)
  from ne r obtain whole gs where
    f: "FindStringSubmatch (map tokenInst ?ts) value = Some (whole # gs)"
    and len: "length ?urs = length gs"
    and b: "?b = bindValues (zip ?urs gs) []"
    by (auto simp: currentSetterValues_def Let_def split: option.splits list.splits if_splits)
  from FindStringSubmatch_match[OF f] obtain pre t where
    v: "value = pre @ whole @ t" and m: "matchHere (map tokenInst ?ts) (whole @ t) = Some (whole, gs)"
    by auto
  from matchHere_weave[OF m] have w: "whole = weave (map tokenInst ?ts) gs" by blast
  from ne b have b': "?b = fold (\<lambda>kv. AList.update (clean (fst kv)) (snd kv)) (zip ?urs gs) []"
    using bindValues_nonempty by metis
  have dk: "distinct (map (\<lambda>kv. clean (fst kv)) (zip ?urs gs))"
  proof -
    have "map (\<lambda>kv. clean (fst kv)) (zip ?urs gs) = map clean (map fst (zip ?urs gs))" by simp
    also have "\<dots> = ?hs" using len cl by simp
    finally show ?thesis using di by (simp add: urs distinct_map)
  qed
  have lk: "\<forall>i<length gs. map_of ?b (?hs ! i) = Some (gs ! i)"
  proof (intro allI impI)
    fix i assume i: "i < length gs"
    with len have "(?urs ! i, gs ! i) \<in> set (zip ?urs gs)"
      by (metis in_set_zip fst_conv snd_conv length_zip min.idem nth_zip nth_mem)
    from fold_update_lookup[OF dk this, of "[]"]
    have "map_of ?b (clean (?urs ! i)) = Some (gs ! i)" by (simp add: b'[symmetric])
    moreover from i len have "clean (?urs ! i) = ?hs ! i"
      by (metis cl length_map nth_map)
    ultimately show "map_of ?b (?hs ! i) = Some (gs ! i)" by simp
  qed
  from len have "length ?hs = length gs" by (simp add: urs)
  from weave_subst[OF this lk] w have "whole = substitute ?b pattern"
    by (simp add: substitute_tokens)
  with v show ?thesis by blast
qed

theorem round_trip_witness:
  "unresolvedSetters ''${image}:${tag}'' = [''${image}'', ''${tag}''] \<and>
   CHR ''$'' \<notin> set (clean ''${image}'') \<and> CHR ''$'' \<notin> set (clean ''${tag}'') \<and>
   distinct [''${image}'', ''${tag}''] \<and>
   currentSetterValues ''${image}:${tag}'' ''nginx:1.14'' = [(''image'', ''nginx''), (''tag'', ''1.14'')] \<and>
   (\<exists>pre post. ''nginx:1.14'' =
      pre @ substitute (currentSetterValues ''${image}:${tag}'' ''nginx:1.14'') ''${image}:${tag}'' @ post)"
proof -
  have u: "unresolvedSetters ''${image}:${tag}'' = [''${image}'', ''${tag}'']" by code_simp
  have c1: "CHR ''$'' \<notin> set (clean ''${image}'')" by code_simp
  have c2: "CHR ''$'' \<notin> set (clean ''${tag}'')" by code_simp
  have d: "distinct [''${image}'', ''${tag}'']" by simp
  have v: "currentSetterValues ''${image}:${tag}'' ''nginx:1.14'' =
      [(''image'', ''nginx''), (''tag'', ''1.14'')]" by code_simp
  have h1: "\<forall>ur\<in>set (unresolvedSetters ''${image}:${tag}''). CHR ''$'' \<notin> set (clean ur)"
    unfolding u using c1 c2 by simp
  have h2: "distinct (unresolvedSetters ''${image}:${tag}'')" unfolding u by (rule d)
  have h3: "currentSetterValues ''${image}:${tag}'' ''nginx:1.14'' \<noteq> []" unfolding v by simp
  from round_trip[OF h1 h2 h3] u c1 c2 d v show ?thesis by blast
qed

text \<open>A value with text before the match; a name that comes twice, bound to the later
  group; and a placeholder whose text ends another one, where the result is not even a part
  of the value \<^verbatim>\<open>X${aY\<close>.\<close>

theorem round_trip_counterexample:
  "currentSetterValues ''foo-${a}'' ''xfoo-bar'' = [(''a'', ''bar'')] \<and>
   substitute (currentSetterValues ''foo-${a}'' ''xfoo-bar'') ''foo-${a}'' = ''foo-bar'' \<and>
   currentSetterValues ''${a}-${a}'' ''x-y'' = [(''a'', ''y'')] \<and>
   substitute (currentSetterValues ''${a}-${a}'' ''x-y'') ''${a}-${a}'' = ''y-y'' \<and>
   currentSetterValues ''${a}${a${a}'' ''X${aY'' = [(''a'', ''X''), (''a${a'', ''Y'')] \<and>
   substitute (currentSetterValues ''${a}${a${a}'' ''X${aY'') ''${a}${a${a}'' = ''XY''"
  by code_simp

section \<open>Claims about the scalar rule\<close>

text \<open>
  C7, as amended: for a pattern that is one placeholder \<^verbatim>\<open>${name}\<close> and nothing else, and
  a value that is not empty and holds no line feed, \<open>currentSetterValues\<close> returns the map
  with the one entry from \<open>name\<close> to the value. The dot of the group does not match a line
  feed, so a value with a line feed is bound only up to it, or not at all.
\<close>

theorem single_placeholder:
  "CHR ''}'' \<notin> set name \<Longrightarrow> value \<noteq> [] \<Longrightarrow> CHR 0x0A \<notin> set value \<Longrightarrow>
   currentSetterValues (''${'' @ name @ ''}'') value = [(name, value)]"
proof -
  assume n: "CHR ''}'' \<notin> set name" and v: "value \<noteq> []" "CHR 0x0A \<notin> set value"
  have "currentSetterValues (''${'' @ name @ ''}'') value =
      [(clean (''${'' @ name @ ''}''), value)]"
    using unresolvedSetters_single[OF n] v by (rule csv_single)
  also have "clean (''${'' @ name @ ''}'') = name" using n by (rule clean_placeholder)
  finally show ?thesis .
qed

theorem single_placeholder_witness:
  "CHR ''}'' \<notin> set ''replicas'' \<and> ''3'' \<noteq> [] \<and> CHR 0x0A \<notin> set ''3'' \<and>
   currentSetterValues ''${replicas}'' ''3'' = [(''replicas'', ''3'')]"
proof -
  have a: "CHR ''}'' \<notin> set ''replicas''" by simp
  have b: "''3'' \<noteq> []" by simp
  have c: "CHR 0x0A \<notin> set ''3''" by simp
  from single_placeholder[OF a b c] have "currentSetterValues ''${replicas}'' ''3'' = [(''replicas'', ''3'')]"
    by simp
  with a b c show ?thesis by blast
qed

text \<open>The value \<^verbatim>\<open>x\<close>, line feed, \<^verbatim>\<open>y\<close> is not empty, and the name is bound to
  \<^verbatim>\<open>x\<close> instead of the value.\<close>

theorem single_placeholder_counterexample:
  "currentSetterValues ''${a}'' [CHR ''x'', CHR 0x0A, CHR ''y''] = [(''a'', ''x'')] \<and>
   currentSetterValues ''${a}'' [CHR ''x'', CHR 0x0A, CHR ''y''] \<noteq>
     [(''a'', [CHR ''x'', CHR 0x0A, CHR ''y''])]"
  by code_simp

text \<open>
  C2, as amended: for a scalar node whose marker pattern holds no placeholder,
  \<open>currentSetterValues\<close> returns no binding and the scalar rule leaves the registry as it
  was: the pattern is not taken as the name of a setter, no setter is created and no count
  is incremented.
\<close>

theorem no_placeholder_no_setter:
  "iterOrder ord \<Longrightarrow> Kind object = ScalarNode \<Longrightarrow>
   unresolvedSetters (extractSetterPattern (LineComment object)) = [] \<Longrightarrow>
   currentSetterValues (extractSetterPattern (LineComment object)) (Value object) = [] \<and>
   visitScalar ord ls object = (ls, None)"
  by (simp add: visitScalar_eq scalarBindings_def csv_no_placeholders rangeMap_def iterOrder_0)

theorem no_placeholder_no_setter_witness:
  "iterOrder (\<lambda>n. [0..<n]) \<and>
   Kind (Node ScalarNode PlainStyle ''!!str'' ''# kpt-set: replicas'' ''3'' []) = ScalarNode \<and>
   unresolvedSetters (extractSetterPattern
     (LineComment (Node ScalarNode PlainStyle ''!!str'' ''# kpt-set: replicas'' ''3'' []))) = [] \<and>
   visitScalar (\<lambda>n. [0..<n]) New (Node ScalarNode PlainStyle ''!!str'' ''# kpt-set: replicas'' ''3'' []) =
     (New, None)"
proof -
  have a: "iterOrder (\<lambda>n. [0..<n])" by (rule iterOrder_upt)
  have b: "Kind (Node ScalarNode PlainStyle ''!!str'' ''# kpt-set: replicas'' ''3'' []) = ScalarNode" by simp
  have c: "unresolvedSetters (extractSetterPattern
     (LineComment (Node ScalarNode PlainStyle ''!!str'' ''# kpt-set: replicas'' ''3'' []))) = []"
    by code_simp
  from no_placeholder_no_setter[OF a b c, of New]
  have "visitScalar (\<lambda>n. [0..<n]) New (Node ScalarNode PlainStyle ''!!str'' ''# kpt-set: replicas'' ''3'' []) =
     (New, None)" by blast
  with a b c show ?thesis by blast
qed

text \<open>A scalar \<^verbatim>\<open>3\<close> marked \<^verbatim>\<open># kpt-set: replicas\<close>, visited from the empty
  registry, leaves no scalar setter \<^verbatim>\<open>replicas\<close>.\<close>

theorem direct_name_counterexample:
  "map_of (ScalarSetters (fst (visitScalar (\<lambda>n. [0..<n]) New
      (Node ScalarNode PlainStyle ''!!str'' ''# kpt-set: replicas'' ''3'' [])))) ''replicas'' = None"
  by code_simp

section \<open>Claims about stored values\<close>

text \<open>
  C4: when a name is already a key of the scalar mapping, a visit of a scalar node leaves its
  entry as it was but for the count, which goes up by one exactly when the visit resolves to
  the name; the same holds for the array mapping and a visit of a mapping field. After any
  list of visits the entry is the first one with a count that has only grown.
\<close>

theorem first_value_kept:
  "iterOrder ord \<Longrightarrow>
   (map_of (ScalarSetters ls) name = Some s \<longrightarrow>
      map_of (ScalarSetters (fst (visitScalar ord ls object))) name =
        Some (if name \<in> fst ` set (scalarBindings object)
              then s\<lparr>Count_s := Count_s s + 1\<rparr> else s)) \<and>
   (map_of (ArraySetters ls) name = Some a \<longrightarrow>
      map_of (ArraySetters (fst (visitField ls node))) name =
        Some (if fieldSetter node = Some name then a\<lparr>Count_a := Count_a a + 1\<rparr> else a)) \<and>
   (forEach (visitNode ord) ls vs = (ls', e) \<longrightarrow>
      (map_of (ScalarSetters ls) name = Some s \<longrightarrow>
         (\<exists>c\<ge>0. map_of (ScalarSetters ls') name = Some (s\<lparr>Count_s := Count_s s + c\<rparr>))) \<and>
      (map_of (ArraySetters ls) name = Some a \<longrightarrow>
         (\<exists>c\<ge>0. map_of (ArraySetters ls') name = Some (a\<lparr>Count_a := Count_a a + c\<rparr>))))"
proof (intro conjI impI)
  assume ord: "iterOrder ord" and s: "map_of (ScalarSetters ls) name = Some s"
  show "map_of (ScalarSetters (fst (visitScalar ord ls object))) name =
        Some (if name \<in> fst ` set (scalarBindings object)
              then s\<lparr>Count_s := Count_s s + 1\<rparr> else s)"
  proof (cases "map_of (scalarBindings object) name")
    case None
    then have "name \<notin> fst ` set (scalarBindings object)" by (simp add: map_of_eq_None_iff)
    with None s ord show ?thesis by (simp add: visitScalar_lookup)
  next
    case (Some v)
    then have "name \<in> fst ` set (scalarBindings object)"
      by (metis map_of_eq_None_iff option.distinct(1))
    with Some s ord show ?thesis by (simp add: visitScalar_lookup)
  qed
next
  assume "map_of (ArraySetters ls) name = Some a"
  then show "map_of (ArraySetters (fst (visitField ls node))) name =
        Some (if fieldSetter node = Some name then a\<lparr>Count_a := Count_a a + 1\<rparr> else a)"
    by (simp add: visitField_lookup)
next
  assume "iterOrder ord" "forEach (visitNode ord) ls vs = (ls', e)"
    "map_of (ScalarSetters ls) name = Some s"
  then show "\<exists>c\<ge>0. map_of (ScalarSetters ls') name = Some (s\<lparr>Count_s := Count_s s + c\<rparr>)"
    using visits_keep by blast
next
  assume "iterOrder ord" "forEach (visitNode ord) ls vs = (ls', e)"
    "map_of (ArraySetters ls) name = Some a"
  then show "\<exists>c\<ge>0. map_of (ArraySetters ls') name = Some (a\<lparr>Count_a := Count_a a + c\<rparr>)"
    using visits_keep by blast
qed

theorem first_value_kept_witness:
  "iterOrder (\<lambda>n. [0..<n]) \<and>
   map_of (ScalarSetters
     (New\<lparr>ScalarSetters := [(''replicas'', \<lparr>Name_s = ''replicas'', Value_s = ''3'', Count_s = 1\<rparr>)]\<rparr>))
     ''replicas'' = Some \<lparr>Name_s = ''replicas'', Value_s = ''3'', Count_s = 1\<rparr> \<and>
   ''replicas'' \<in> fst ` set (scalarBindings
     (Node ScalarNode PlainStyle ''!!str'' ''# kpt-set: ${replicas}'' ''5'' [])) \<and>
   map_of (ScalarSetters (fst (visitScalar (\<lambda>n. [0..<n])
     (New\<lparr>ScalarSetters := [(''replicas'', \<lparr>Name_s = ''replicas'', Value_s = ''3'', Count_s = 1\<rparr>)]\<rparr>)
     (Node ScalarNode PlainStyle ''!!str'' ''# kpt-set: ${replicas}'' ''5'' [])))) ''replicas'' =
     Some \<lparr>Name_s = ''replicas'', Value_s = ''3'', Count_s = 2\<rparr>"
proof -
  let ?ls = "New\<lparr>ScalarSetters :=
    [(''replicas'', \<lparr>Name_s = ''replicas'', Value_s = ''3'', Count_s = 1\<rparr>)]\<rparr>"
  let ?obj = "Node ScalarNode PlainStyle ''!!str'' ''# kpt-set: ${replicas}'' ''5'' []"
  have a: "iterOrder (\<lambda>n. [0..<n])" by (rule iterOrder_upt)
  have b: "map_of (ScalarSetters ?ls) ''replicas'' =
      Some \<lparr>Name_s = ''replicas'', Value_s = ''3'', Count_s = 1\<rparr>" by simp
  have "scalarBindings ?obj = [(''replicas'', ''5'')]" by code_simp
  then have c: "''replicas'' \<in> fst ` set (scalarBindings ?obj)" by simp
  from first_value_kept[OF a, THEN conjunct1, rule_format, OF b, of ?obj] c
  have "map_of (ScalarSetters (fst (visitScalar (\<lambda>n. [0..<n]) ?ls ?obj))) ''replicas'' =
     Some \<lparr>Name_s = ''replicas'', Value_s = ''3'', Count_s = 2\<rparr>" by simp
  with a b c show ?thesis by blast
qed




section \<open>Claims about the discovery pass\<close>




text \<open>When a mapping has a key twice, the walk is handed the first field of that key
  twice and the second field never. In \<open>repeatedKeyDoc\<close> one field carries the marker of
  \<^verbatim>\<open>zones\<close>; the walk is handed two, and the count is 2.\<close>

lemma repeated_key_counted_twice:
  "length (filter (\<lambda>node. fieldSetter node = Some ''zones'')
     (writtenFields (walkAll [repeatedKeyDoc]))) = 1 \<and>
   length (fieldsNamed ''zones'' (walkAll [repeatedKeyDoc])) = 2 \<and>
   Filter (\<lambda>n. [0..<n]) exampleParse exampleString New [repeatedKeyDoc] =
   (\<lparr>ScalarSetters = [],
      ArraySetters = [(''zones'', \<lparr>Name_a = ''zones'', Values_a = [''a''], Count_a = 2\<rparr>)],
      Warnings = [ErrSetterDiscovery
        ''unable to find Kptfile, please include --include-meta-resources flag if a Kptfile is present''],
      filePath = ''twice.yaml''\<rparr>,
    Some [repeatedKeyDoc], None)"
  by code_simp

text \<open>A manifest value that reads as null has no elements and gives no error: the setter
  is seeded as an array setter without values, and a field of that name only counts.\<close>

lemma null_value_seeds_array:
  "getArraySetterValues exampleParse exampleString ''null'' = Inr [] \<and>
   ArraySetters (fst (Filter (\<lambda>n. [0..<n]) exampleParse exampleString New
     [kptfileDoc (applySetters [] (Some [(''zones'', ''null'')])), exampleDoc])) =
     [(''zones'', \<lparr>Name_a = ''zones'', Values_a = [], Count_a = 1\<rparr>)]"
  by code_simp

text \<open>
  C6: when the Kptfile is missing, has no pipeline, has no mutator whose image names
  \<^verbatim>\<open>apply-setters\<close>, or that mutator has neither a config map nor a config path,
  the manifest lookup fails with the matching \<open>ErrSetterDiscovery\<close>; \<open>Filter\<close> appends
  it to the warnings and goes on with the walk over the documents, from the registry as it
  was. When the config path names a file that no document of the set carries, \<open>Filter\<close>
  returns the error at once, with the registry and its warnings as they were. The walk
  keeps the warnings, returns the documents when it ends without error, and ends without
  error when every document has its file annotations and every mapping node has its keys
  and values in pairs. After a warning, a pass that ends without error returns the
  documents and a registry that holds the warning and, for every name, the setters that
  the markers of the documents' fields give: the scalar entry of the values bound to the
  name by the scalar leaves, and the array entry of the sequence fields resolving to the
  name, each with its first value and the number of its fields added to its count.
\<close>

theorem manifest_failures:
  "((\<forall>n\<in>set nodes. PathAnnotation n \<noteq> KptFileName) \<longrightarrow>
      FindSettersFromKptfile nodes = Inl (Discovery (ErrSetterDiscovery
        ''unable to find Kptfile, please include --include-meta-resources flag if a Kptfile is present'')) \<and>
      Filter ord Parse String ls nodes =
        discoverFromConfig ord nodes
          (ls\<lparr>Warnings := Warnings ls @ [ErrSetterDiscovery
             ''unable to find Kptfile, please include --include-meta-resources flag if a Kptfile is present'']\<rparr>)
          nodes) \<and>
   (FindKptfile nodes = Inr kf \<and> Pipeline kf = None \<longrightarrow>
      FindSettersFromKptfile nodes = Inl (Discovery (ErrSetterDiscovery
        ''unable to find Pipeline declaration in Kptfile'')) \<and>
      Filter ord Parse String ls nodes =
        discoverFromConfig ord nodes
          (ls\<lparr>Warnings := Warnings ls @ [ErrSetterDiscovery
             ''unable to find Pipeline declaration in Kptfile'']\<rparr>)
          nodes) \<and>
   (FindKptfile nodes = Inr kf \<and> Pipeline kf = Some pl \<and>
    (\<forall>fn\<in>set (Mutators pl). \<not> Contains (Image fn) ''apply-setters'') \<longrightarrow>
      FindSettersFromKptfile nodes = Inl (Discovery (ErrSetterDiscovery
        ''unable to find apply-setters fn in Kptfile Pipeline.Mutators'')) \<and>
      Filter ord Parse String ls nodes =
        discoverFromConfig ord nodes
          (ls\<lparr>Warnings := Warnings ls @ [ErrSetterDiscovery
             ''unable to find apply-setters fn in Kptfile Pipeline.Mutators'']\<rparr>)
          nodes) \<and>
   (FindKptfile nodes = Inr kf \<and> Pipeline kf = Some pl \<and> Mutators pl = pre @ fn # post \<and>
    (\<forall>f\<in>set pre. \<not> Contains (Image f) ''apply-setters'') \<and>
    Contains (Image fn) ''apply-setters'' \<and> ConfigMap fn = None \<and> ConfigPath fn = [] \<longrightarrow>
      FindSettersFromKptfile nodes = Inl (Discovery (ErrSetterDiscovery
        ''unable to find ConfigMap or ConfigPath fnConfig for apply-setters'')) \<and>
      Filter ord Parse String ls nodes =
        discoverFromConfig ord nodes
          (ls\<lparr>Warnings := Warnings ls @ [ErrSetterDiscovery
             ''unable to find ConfigMap or ConfigPath fnConfig for apply-setters'']\<rparr>)
          nodes) \<and>
   (FindKptfile nodes = Inr kf \<and> Pipeline kf = Some pl \<and> Mutators pl = pre @ fn # post \<and>
    (\<forall>f\<in>set pre. \<not> Contains (Image f) ''apply-setters'') \<and>
    Contains (Image fn) ''apply-setters'' \<and> ConfigMap fn = None \<and> ConfigPath fn \<noteq> [] \<and>
    (\<forall>n\<in>set nodes. PathAnnotation n \<noteq> ConfigPath fn) \<longrightarrow>
      Filter ord Parse String ls nodes =
        (ls, Some nodes,
         Some (Failure (''file '' @ ConfigPath fn @ '' doesn'' @ [CHR 0x27] @
           ''t exist, please ensure the file specified in '' @ [CHR 0x22] @ ''configPath'' @
           [CHR 0x22] @ '' exists and retry'')))) \<and>
   (iterOrder ord \<longrightarrow>
      Warnings (fst (discoverFromConfig ord nodes ls0 rest)) = Warnings ls0 \<and>
      (snd (snd (discoverFromConfig ord nodes ls0 rest)) = None \<longrightarrow>
         fst (snd (discoverFromConfig ord nodes ls0 rest)) = Some nodes) \<and>
      ((\<forall>n\<in>set rest. \<exists>p. GetFileAnnotations n = Inr p) \<and>
       (\<forall>n. VisitMapping n \<in> set (walkAll rest) \<longrightarrow> even (length (Content n))) \<longrightarrow>
         snd (snd (discoverFromConfig ord nodes ls0 rest)) = None)) \<and>
   (iterOrder ord \<and> FindSettersFromKptfile nodes = Inl (Discovery d) \<and>
    Filter ord Parse String ls nodes = (ls', out, None) \<longrightarrow>
      Warnings ls' = Warnings ls @ [d] \<and> out = Some nodes \<and>
      map_of (ScalarSetters ls') name =
        countedScalar name (valuesNamed name (walkAll nodes)) (map_of (ScalarSetters ls) name) \<and>
      map_of (ArraySetters ls') name =
        countedArray name (fieldsNamed name (walkAll nodes)) (map_of (ArraySetters ls) name))"
proof -
  have c1: "FindSettersFromKptfile nodes = Inl (Discovery (ErrSetterDiscovery
        ''unable to find Kptfile, please include --include-meta-resources flag if a Kptfile is present'')) \<and>
      Filter ord Parse String ls nodes =
        discoverFromConfig ord nodes
          (ls\<lparr>Warnings := Warnings ls @ [ErrSetterDiscovery
             ''unable to find Kptfile, please include --include-meta-resources flag if a Kptfile is present'']\<rparr>)
          nodes"
    if "(\<forall>n\<in>set nodes. PathAnnotation n \<noteq> KptFileName)"
    using that by (simp add: Filter_cases FindSettersFromKptfile_def FindKptfile_missing)
  have c2: "FindSettersFromKptfile nodes = Inl (Discovery (ErrSetterDiscovery
        ''unable to find Pipeline declaration in Kptfile'')) \<and>
      Filter ord Parse String ls nodes =
        discoverFromConfig ord nodes
          (ls\<lparr>Warnings := Warnings ls @ [ErrSetterDiscovery
             ''unable to find Pipeline declaration in Kptfile'']\<rparr>)
          nodes"
    if "FindKptfile nodes = Inr kf \<and> Pipeline kf = None"
    using that by (simp add: Filter_cases FindSettersFromKptfile_def)
  have c3: "FindSettersFromKptfile nodes = Inl (Discovery (ErrSetterDiscovery
        ''unable to find apply-setters fn in Kptfile Pipeline.Mutators'')) \<and>
      Filter ord Parse String ls nodes =
        discoverFromConfig ord nodes
          (ls\<lparr>Warnings := Warnings ls @ [ErrSetterDiscovery
             ''unable to find apply-setters fn in Kptfile Pipeline.Mutators'']\<rparr>)
          nodes"
    if "FindKptfile nodes = Inr kf \<and> Pipeline kf = Some pl \<and>
    (\<forall>fn\<in>set (Mutators pl). \<not> Contains (Image fn) ''apply-setters'')"
    using that by (simp add: Filter_cases FindSettersFromKptfile_def mutatorSetters_none)
  have c4: "FindSettersFromKptfile nodes = Inl (Discovery (ErrSetterDiscovery
        ''unable to find ConfigMap or ConfigPath fnConfig for apply-setters'')) \<and>
      Filter ord Parse String ls nodes =
        discoverFromConfig ord nodes
          (ls\<lparr>Warnings := Warnings ls @ [ErrSetterDiscovery
             ''unable to find ConfigMap or ConfigPath fnConfig for apply-setters'']\<rparr>)
          nodes"
    if "FindKptfile nodes = Inr kf \<and> Pipeline kf = Some pl \<and> Mutators pl = pre @ fn # post \<and>
    (\<forall>f\<in>set pre. \<not> Contains (Image f) ''apply-setters'') \<and>
    Contains (Image fn) ''apply-setters'' \<and> ConfigMap fn = None \<and> ConfigPath fn = []"
    using that by (simp add: Filter_cases FindSettersFromKptfile_def mutatorSetters_skip)
  have c5: "Filter ord Parse String ls nodes =
        (ls, Some nodes,
         Some (Failure (''file '' @ ConfigPath fn @ '' doesn'' @ [CHR 0x27] @
           ''t exist, please ensure the file specified in '' @ [CHR 0x22] @ ''configPath'' @
           [CHR 0x22] @ '' exists and retry'')))"
    if "FindKptfile nodes = Inr kf \<and> Pipeline kf = Some pl \<and> Mutators pl = pre @ fn # post \<and>
    (\<forall>f\<in>set pre. \<not> Contains (Image f) ''apply-setters'') \<and>
    Contains (Image fn) ''apply-setters'' \<and> ConfigMap fn = None \<and> ConfigPath fn \<noteq> [] \<and>
    (\<forall>n\<in>set nodes. PathAnnotation n \<noteq> ConfigPath fn)"
    using that
    by (simp add: Filter_cases FindSettersFromKptfile_def mutatorSetters_skip
        findSetterNode_missing)
  have c6: "Warnings (fst (discoverFromConfig ord nodes ls0 rest)) = Warnings ls0 \<and>
      (snd (snd (discoverFromConfig ord nodes ls0 rest)) = None \<longrightarrow>
         fst (snd (discoverFromConfig ord nodes ls0 rest)) = Some nodes) \<and>
      ((\<forall>n\<in>set rest. \<exists>p. GetFileAnnotations n = Inr p) \<and>
       (\<forall>n. VisitMapping n \<in> set (walkAll rest) \<longrightarrow> even (length (Content n))) \<longrightarrow>
         snd (snd (discoverFromConfig ord nodes ls0 rest)) = None)"
    if ord: "iterOrder ord"
  proof (intro conjI impI)
    show "Warnings (fst (discoverFromConfig ord nodes ls0 rest)) = Warnings ls0"
      using ord by (rule discover_Warnings)
  next
    assume "snd (snd (discoverFromConfig ord nodes ls0 rest)) = None"
    then have "discoverFromConfig ord nodes ls0 rest =
        (fst (discoverFromConfig ord nodes ls0 rest),
         fst (snd (discoverFromConfig ord nodes ls0 rest)), None)"
      by (metis prod.collapse)
    then show "fst (snd (discoverFromConfig ord nodes ls0 rest)) = Some nodes"
      by (rule discover_out)
  next
    assume "(\<forall>n\<in>set rest. \<exists>p. GetFileAnnotations n = Inr p) \<and>
       (\<forall>n. VisitMapping n \<in> set (walkAll rest) \<longrightarrow> even (length (Content n)))"
    with ord show "snd (snd (discoverFromConfig ord nodes ls0 rest)) = None"
      using discover_no_error by blast
  qed
  have c7: "Warnings ls' = Warnings ls @ [d] \<and> out = Some nodes \<and>
      map_of (ScalarSetters ls') name =
        countedScalar name (valuesNamed name (walkAll nodes)) (map_of (ScalarSetters ls) name) \<and>
      map_of (ArraySetters ls') name =
        countedArray name (fieldsNamed name (walkAll nodes)) (map_of (ArraySetters ls) name)"
    if h: "iterOrder ord \<and> FindSettersFromKptfile nodes = Inl (Discovery d) \<and>
    Filter ord Parse String ls nodes = (ls', out, None)"
  proof -
    from h have ord: "iterOrder ord" and m: "FindSettersFromKptfile nodes = Inl (Discovery d)"
      and f: "Filter ord Parse String ls nodes = (ls', out, None)" by simp_all
    from m f have r: "discoverFromConfig ord nodes (ls\<lparr>Warnings := Warnings ls @ [d]\<rparr>) nodes =
        (ls', out, None)"
      by (simp add: Filter_cases)
    from discover_Warnings[OF ord, of nodes "ls\<lparr>Warnings := Warnings ls @ [d]\<rparr>" nodes] r
    have w: "Warnings ls' = Warnings ls @ [d]" by simp
    from discover_array_lookup[OF ord r, of name]
    have a: "map_of (ArraySetters ls') name =
        countedArray name (fieldsNamed name (walkAll nodes)) (map_of (ArraySetters ls) name)"
      and o: "out = Some nodes" by simp_all
    from discover_scalar_lookup[OF ord r, of name]
    have s: "map_of (ScalarSetters ls') name =
        countedScalar name (valuesNamed name (walkAll nodes)) (map_of (ScalarSetters ls) name)"
      by simp
    from w o s a show ?thesis by blast
  qed
  from c1 c2 c3 c4 c5 c6 c7 show ?thesis by blast
qed

theorem manifest_failures_witness:
  "PathAnnotation exampleDoc \<noteq> KptFileName \<and>
   Warnings (fst (Filter (\<lambda>n. [0..<n]) exampleParse exampleString New [exampleDoc])) =
     [ErrSetterDiscovery ''unable to find Kptfile, please include --include-meta-resources flag if a Kptfile is present''] \<and>
   snd (Filter (\<lambda>n. [0..<n]) exampleParse exampleString New [exampleDoc]) =
     (Some [exampleDoc], None) \<and>
   map_of (ScalarSetters (fst (Filter (\<lambda>n. [0..<n]) exampleParse exampleString New [exampleDoc]))) ''replicas'' =
     Some \<lparr>Name_s = ''replicas'', Value_s = ''3'', Count_s = 1\<rparr> \<and>
   map_of (ArraySetters (fst (Filter (\<lambda>n. [0..<n]) exampleParse exampleString New [exampleDoc]))) ''zones'' =
     Some \<lparr>Name_a = ''zones'', Values_a = [''a'', ''b''], Count_a = 1\<rparr> \<and>
   GetResults (\<lambda>n. [0..<n]) (fst (Filter (\<lambda>n. [0..<n]) exampleParse exampleString New [exampleDoc])) =
     [\<lparr>Name_r = ''image'', Value_r = ''nginx'', Type_r = ''string'', Count_r = 1\<rparr>,
      \<lparr>Name_r = ''replicas'', Value_r = ''3'', Type_r = ''string'', Count_r = 1\<rparr>,
      \<lparr>Name_r = ''tag'', Value_r = ''1.14'', Type_r = ''string'', Count_r = 1\<rparr>,
      \<lparr>Name_r = ''zones'', Value_r = ''[a b]'', Type_r = ''list'', Count_r = 1\<rparr>] \<and>
   Warnings (fst (Filter (\<lambda>n. [0..<n]) exampleParse exampleString New [kptfileDoc \<lparr>Pipeline = None\<rparr>, exampleDoc])) =
     [ErrSetterDiscovery ''unable to find Pipeline declaration in Kptfile''] \<and>
   snd (Filter (\<lambda>n. [0..<n]) exampleParse exampleString New [kptfileDoc \<lparr>Pipeline = None\<rparr>, exampleDoc]) =
     (Some [kptfileDoc \<lparr>Pipeline = None\<rparr>, exampleDoc], None) \<and>
   map_of (ScalarSetters (fst (Filter (\<lambda>n. [0..<n]) exampleParse exampleString New [kptfileDoc \<lparr>Pipeline = None\<rparr>, exampleDoc]))) ''replicas'' =
     Some \<lparr>Name_s = ''replicas'', Value_s = ''3'', Count_s = 1\<rparr> \<and>
   map_of (ArraySetters (fst (Filter (\<lambda>n. [0..<n]) exampleParse exampleString New [kptfileDoc \<lparr>Pipeline = None\<rparr>, exampleDoc]))) ''zones'' =
     Some \<lparr>Name_a = ''zones'', Values_a = [''a'', ''b''], Count_a = 1\<rparr> \<and>
   Warnings (fst (Filter (\<lambda>n. [0..<n]) exampleParse exampleString New [kptfileDoc \<lparr>Pipeline = Some \<lparr>Mutators = []\<rparr>\<rparr>, exampleDoc])) =
     [ErrSetterDiscovery ''unable to find apply-setters fn in Kptfile Pipeline.Mutators''] \<and>
   snd (Filter (\<lambda>n. [0..<n]) exampleParse exampleString New [kptfileDoc \<lparr>Pipeline = Some \<lparr>Mutators = []\<rparr>\<rparr>, exampleDoc]) =
     (Some [kptfileDoc \<lparr>Pipeline = Some \<lparr>Mutators = []\<rparr>\<rparr>, exampleDoc], None) \<and>
   map_of (ScalarSetters (fst (Filter (\<lambda>n. [0..<n]) exampleParse exampleString New [kptfileDoc \<lparr>Pipeline = Some \<lparr>Mutators = []\<rparr>\<rparr>, exampleDoc]))) ''replicas'' =
     Some \<lparr>Name_s = ''replicas'', Value_s = ''3'', Count_s = 1\<rparr> \<and>
   map_of (ArraySetters (fst (Filter (\<lambda>n. [0..<n]) exampleParse exampleString New [kptfileDoc \<lparr>Pipeline = Some \<lparr>Mutators = []\<rparr>\<rparr>, exampleDoc]))) ''zones'' =
     Some \<lparr>Name_a = ''zones'', Values_a = [''a'', ''b''], Count_a = 1\<rparr> \<and>
   Warnings (fst (Filter (\<lambda>n. [0..<n]) exampleParse exampleString New [kptfileDoc (applySetters [] None), exampleDoc])) =
     [ErrSetterDiscovery ''unable to find ConfigMap or ConfigPath fnConfig for apply-setters''] \<and>
   snd (Filter (\<lambda>n. [0..<n]) exampleParse exampleString New [kptfileDoc (applySetters [] None), exampleDoc]) =
     (Some [kptfileDoc (applySetters [] None), exampleDoc], None) \<and>
   map_of (ScalarSetters (fst (Filter (\<lambda>n. [0..<n]) exampleParse exampleString New [kptfileDoc (applySetters [] None), exampleDoc]))) ''replicas'' =
     Some \<lparr>Name_s = ''replicas'', Value_s = ''3'', Count_s = 1\<rparr> \<and>
   map_of (ArraySetters (fst (Filter (\<lambda>n. [0..<n]) exampleParse exampleString New [kptfileDoc (applySetters [] None), exampleDoc]))) ''zones'' =
     Some \<lparr>Name_a = ''zones'', Values_a = [''a'', ''b''], Count_a = 1\<rparr> \<and>
   Filter (\<lambda>n. [0..<n]) exampleParse exampleString New
     [kptfileDoc (applySetters ''setters.yaml'' None), exampleDoc] =
     (New, Some [kptfileDoc (applySetters ''setters.yaml'' None), exampleDoc],
      Some (Failure (''file setters.yaml doesn'' @ [CHR 0x27] @
        ''t exist, please ensure the file specified in '' @ [CHR 0x22] @ ''configPath'' @
        [CHR 0x22] @ '' exists and retry'')))"
proof -
  let ?ord = "\<lambda>n::nat. [0..<n]"
  let ?F = "Filter ?ord exampleParse exampleString New"
  have ord: "iterOrder ?ord" by (rule iterOrder_upt)
  \<comment> \<open>no Kptfile\<close>
  have p0: "PathAnnotation exampleDoc \<noteq> KptFileName"
    by (simp add: exampleDoc_def KptFileName_def)
  then have h1: "\<forall>n\<in>set [exampleDoc]. PathAnnotation n \<noteq> KptFileName" by simp
  note f1 = manifest_failures[THEN conjunct1, THEN mp, OF h1,
      of ?ord exampleParse exampleString New]
  have e1: "snd (snd (?F [exampleDoc])) = None" by code_simp
  then have p1: "?F [exampleDoc] = (fst (?F [exampleDoc]), fst (snd (?F [exampleDoc])), None)"
    by (metis prod.collapse)
  have vs1: "countedScalar ''replicas'' (valuesNamed ''replicas'' (walkAll [exampleDoc]))
      (map_of (ScalarSetters New) ''replicas'') = Some \<lparr>Name_s = ''replicas'', Value_s = ''3'', Count_s = 1\<rparr>"
    by code_simp
  have va1: "countedArray ''zones'' (fieldsNamed ''zones'' (walkAll [exampleDoc]))
      (map_of (ArraySetters New) ''zones'') = Some \<lparr>Name_a = ''zones'', Values_a = [''a'', ''b''], Count_a = 1\<rparr>"
    by code_simp
  note g1 = manifest_failures[where name="''replicas''", THEN conjunct2, THEN conjunct2,
      THEN conjunct2, THEN conjunct2, THEN conjunct2, THEN conjunct2, THEN mp,
      OF conjI[OF ord conjI[OF f1[THEN conjunct1] p1]]]
  note ga1 = manifest_failures[where name="''zones''", THEN conjunct2, THEN conjunct2,
      THEN conjunct2, THEN conjunct2, THEN conjunct2, THEN conjunct2, THEN mp,
      OF conjI[OF ord conjI[OF f1[THEN conjunct1] p1]]]
  have w1: "Warnings (fst (?F [exampleDoc])) = [ErrSetterDiscovery ''unable to find Kptfile, please include --include-meta-resources flag if a Kptfile is present'']"
    using g1[THEN conjunct1] by (simp add: New_def)
  have r1: "snd (?F [exampleDoc]) = (Some [exampleDoc], None)"
    using g1[THEN conjunct2, THEN conjunct1] e1 by (metis prod.collapse)
  have s1: "map_of (ScalarSetters (fst (?F [exampleDoc]))) ''replicas'' = Some \<lparr>Name_s = ''replicas'', Value_s = ''3'', Count_s = 1\<rparr>"
    using g1[THEN conjunct2, THEN conjunct2, THEN conjunct1]
    unfolding vs1 .
  have a1: "map_of (ArraySetters (fst (?F [exampleDoc]))) ''zones'' = Some \<lparr>Name_a = ''zones'', Values_a = [''a'', ''b''], Count_a = 1\<rparr>"
    using ga1[THEN conjunct2, THEN conjunct2, THEN conjunct2]
    unfolding va1 .
  have gr: "GetResults ?ord (fst (?F [exampleDoc])) =
     [\<lparr>Name_r = ''image'', Value_r = ''nginx'', Type_r = ''string'', Count_r = 1\<rparr>,
      \<lparr>Name_r = ''replicas'', Value_r = ''3'', Type_r = ''string'', Count_r = 1\<rparr>,
      \<lparr>Name_r = ''tag'', Value_r = ''1.14'', Type_r = ''string'', Count_r = 1\<rparr>,
      \<lparr>Name_r = ''zones'', Value_r = ''[a b]'', Type_r = ''list'', Count_r = 1\<rparr>]"
    by code_simp
  \<comment> \<open>the walk of the example ends without error\<close>
  have an: "\<forall>n\<in>set [exampleDoc]. \<exists>p. GetFileAnnotations n = Inr p"
    by (simp add: exampleDoc_def)
  have "list_all (\<lambda>v. case v of VisitMapping n \<Rightarrow> even (length (Content n)) | VisitScalar n \<Rightarrow> True)
      (walkAll [exampleDoc])"
    by code_simp
  then have ev: "\<forall>n. VisitMapping n \<in> set (walkAll [exampleDoc]) \<longrightarrow> even (length (Content n))"
    unfolding list_all_iff by force
  note W = manifest_failures[THEN conjunct2, THEN conjunct2, THEN conjunct2, THEN conjunct2,
      THEN conjunct2, THEN conjunct1, THEN mp, OF ord]
  from W[THEN conjunct2, THEN conjunct2, THEN mp, OF conjI[OF an ev], of "[exampleDoc]"]
    W[THEN conjunct2, THEN conjunct1, of "[exampleDoc]" _ "[exampleDoc]"]
    f1[THEN conjunct2]
  have r1': "snd (?F [exampleDoc]) = (Some [exampleDoc], None)"
    by (metis prod.collapse)
  \<comment> \<open>no pipeline\<close>
  have k2: "FindKptfile [kptfileDoc \<lparr>Pipeline = None\<rparr>, exampleDoc] = Inr \<lparr>Pipeline = None\<rparr> \<and>
      Pipeline \<lparr>Pipeline = None\<rparr> = None"
    by (simp add: kptfileDoc_def KptFileName_def)
  note f2 = manifest_failures[THEN conjunct2, THEN conjunct1, THEN mp, OF k2,
      of ?ord exampleParse exampleString New]
  have e2: "snd (snd (?F [kptfileDoc \<lparr>Pipeline = None\<rparr>, exampleDoc])) = None" by code_simp
  then have p2: "?F [kptfileDoc \<lparr>Pipeline = None\<rparr>, exampleDoc] = (fst (?F [kptfileDoc \<lparr>Pipeline = None\<rparr>, exampleDoc]), fst (snd (?F [kptfileDoc \<lparr>Pipeline = None\<rparr>, exampleDoc])), None)"
    by (metis prod.collapse)
  have vs2: "countedScalar ''replicas'' (valuesNamed ''replicas'' (walkAll [kptfileDoc \<lparr>Pipeline = None\<rparr>, exampleDoc]))
      (map_of (ScalarSetters New) ''replicas'') = Some \<lparr>Name_s = ''replicas'', Value_s = ''3'', Count_s = 1\<rparr>"
    by code_simp
  have va2: "countedArray ''zones'' (fieldsNamed ''zones'' (walkAll [kptfileDoc \<lparr>Pipeline = None\<rparr>, exampleDoc]))
      (map_of (ArraySetters New) ''zones'') = Some \<lparr>Name_a = ''zones'', Values_a = [''a'', ''b''], Count_a = 1\<rparr>"
    by code_simp
  note g2 = manifest_failures[where name="''replicas''", THEN conjunct2, THEN conjunct2,
      THEN conjunct2, THEN conjunct2, THEN conjunct2, THEN conjunct2, THEN mp,
      OF conjI[OF ord conjI[OF f2[THEN conjunct1] p2]]]
  note ga2 = manifest_failures[where name="''zones''", THEN conjunct2, THEN conjunct2,
      THEN conjunct2, THEN conjunct2, THEN conjunct2, THEN conjunct2, THEN mp,
      OF conjI[OF ord conjI[OF f2[THEN conjunct1] p2]]]
  have w2: "Warnings (fst (?F [kptfileDoc \<lparr>Pipeline = None\<rparr>, exampleDoc])) = [ErrSetterDiscovery ''unable to find Pipeline declaration in Kptfile'']"
    using g2[THEN conjunct1] by (simp add: New_def)
  have r2: "snd (?F [kptfileDoc \<lparr>Pipeline = None\<rparr>, exampleDoc]) = (Some [kptfileDoc \<lparr>Pipeline = None\<rparr>, exampleDoc], None)"
    using g2[THEN conjunct2, THEN conjunct1] e2 by (metis prod.collapse)
  have s2: "map_of (ScalarSetters (fst (?F [kptfileDoc \<lparr>Pipeline = None\<rparr>, exampleDoc]))) ''replicas'' = Some \<lparr>Name_s = ''replicas'', Value_s = ''3'', Count_s = 1\<rparr>"
    using g2[THEN conjunct2, THEN conjunct2, THEN conjunct1]
    unfolding vs2 .
  have a2: "map_of (ArraySetters (fst (?F [kptfileDoc \<lparr>Pipeline = None\<rparr>, exampleDoc]))) ''zones'' = Some \<lparr>Name_a = ''zones'', Values_a = [''a'', ''b''], Count_a = 1\<rparr>"
    using ga2[THEN conjunct2, THEN conjunct2, THEN conjunct2]
    unfolding va2 .
  \<comment> \<open>no mutator applies setters\<close>
  have k3: "FindKptfile [kptfileDoc \<lparr>Pipeline = Some \<lparr>Mutators = []\<rparr>\<rparr>, exampleDoc] =
        Inr \<lparr>Pipeline = Some \<lparr>Mutators = []\<rparr>\<rparr> \<and>
      Pipeline \<lparr>Pipeline = Some \<lparr>Mutators = []\<rparr>\<rparr> = Some \<lparr>Mutators = []\<rparr> \<and>
      (\<forall>fn\<in>set (Mutators \<lparr>Mutators = []\<rparr>). \<not> Contains (Image fn) ''apply-setters'')"
    by (simp add: kptfileDoc_def KptFileName_def)
  note f3 = manifest_failures[THEN conjunct2, THEN conjunct2, THEN conjunct1, THEN mp, OF k3,
      of ?ord exampleParse exampleString New]
  have e3: "snd (snd (?F [kptfileDoc \<lparr>Pipeline = Some \<lparr>Mutators = []\<rparr>\<rparr>, exampleDoc])) = None" by code_simp
  then have p3: "?F [kptfileDoc \<lparr>Pipeline = Some \<lparr>Mutators = []\<rparr>\<rparr>, exampleDoc] = (fst (?F [kptfileDoc \<lparr>Pipeline = Some \<lparr>Mutators = []\<rparr>\<rparr>, exampleDoc]), fst (snd (?F [kptfileDoc \<lparr>Pipeline = Some \<lparr>Mutators = []\<rparr>\<rparr>, exampleDoc])), None)"
    by (metis prod.collapse)
  have vs3: "countedScalar ''replicas'' (valuesNamed ''replicas'' (walkAll [kptfileDoc \<lparr>Pipeline = Some \<lparr>Mutators = []\<rparr>\<rparr>, exampleDoc]))
      (map_of (ScalarSetters New) ''replicas'') = Some \<lparr>Name_s = ''replicas'', Value_s = ''3'', Count_s = 1\<rparr>"
    by code_simp
  have va3: "countedArray ''zones'' (fieldsNamed ''zones'' (walkAll [kptfileDoc \<lparr>Pipeline = Some \<lparr>Mutators = []\<rparr>\<rparr>, exampleDoc]))
      (map_of (ArraySetters New) ''zones'') = Some \<lparr>Name_a = ''zones'', Values_a = [''a'', ''b''], Count_a = 1\<rparr>"
    by code_simp
  note g3 = manifest_failures[where name="''replicas''", THEN conjunct2, THEN conjunct2,
      THEN conjunct2, THEN conjunct2, THEN conjunct2, THEN conjunct2, THEN mp,
      OF conjI[OF ord conjI[OF f3[THEN conjunct1] p3]]]
  note ga3 = manifest_failures[where name="''zones''", THEN conjunct2, THEN conjunct2,
      THEN conjunct2, THEN conjunct2, THEN conjunct2, THEN conjunct2, THEN mp,
      OF conjI[OF ord conjI[OF f3[THEN conjunct1] p3]]]
  have w3: "Warnings (fst (?F [kptfileDoc \<lparr>Pipeline = Some \<lparr>Mutators = []\<rparr>\<rparr>, exampleDoc])) = [ErrSetterDiscovery ''unable to find apply-setters fn in Kptfile Pipeline.Mutators'']"
    using g3[THEN conjunct1] by (simp add: New_def)
  have r3: "snd (?F [kptfileDoc \<lparr>Pipeline = Some \<lparr>Mutators = []\<rparr>\<rparr>, exampleDoc]) = (Some [kptfileDoc \<lparr>Pipeline = Some \<lparr>Mutators = []\<rparr>\<rparr>, exampleDoc], None)"
    using g3[THEN conjunct2, THEN conjunct1] e3 by (metis prod.collapse)
  have s3: "map_of (ScalarSetters (fst (?F [kptfileDoc \<lparr>Pipeline = Some \<lparr>Mutators = []\<rparr>\<rparr>, exampleDoc]))) ''replicas'' = Some \<lparr>Name_s = ''replicas'', Value_s = ''3'', Count_s = 1\<rparr>"
    using g3[THEN conjunct2, THEN conjunct2, THEN conjunct1]
    unfolding vs3 .
  have a3: "map_of (ArraySetters (fst (?F [kptfileDoc \<lparr>Pipeline = Some \<lparr>Mutators = []\<rparr>\<rparr>, exampleDoc]))) ''zones'' = Some \<lparr>Name_a = ''zones'', Values_a = [''a'', ''b''], Count_a = 1\<rparr>"
    using ga3[THEN conjunct2, THEN conjunct2, THEN conjunct2]
    unfolding va3 .
  \<comment> \<open>the mutator has no configuration\<close>
  let ?labels = "\<lparr>Image = ''gcr.io/kpt-fn/set-labels:v0.1'', ConfigPath = [], ConfigMap = Some []\<rparr>"
  let ?fn = "\<lambda>path. \<lparr>Image = ''gcr.io/kpt-fn/apply-setters:v0.1'', ConfigPath = path,
          ConfigMap = None\<rparr>"
  have c1: "\<not> Contains ''gcr.io/kpt-fn/set-labels:v0.1'' ''apply-setters''" by code_simp
  have c2: "Contains ''gcr.io/kpt-fn/apply-setters:v0.1'' ''apply-setters''" by code_simp
  have k4: "FindKptfile [kptfileDoc (applySetters [] None), exampleDoc] = Inr (applySetters [] None) \<and>
      Pipeline (applySetters [] None) = Some \<lparr>Mutators = [?labels, ?fn []]\<rparr> \<and>
      Mutators \<lparr>Mutators = [?labels, ?fn []]\<rparr> = [?labels] @ ?fn [] # [] \<and>
      (\<forall>f\<in>set [?labels]. \<not> Contains (Image f) ''apply-setters'') \<and>
      Contains (Image (?fn [])) ''apply-setters'' \<and> ConfigMap (?fn []) = None \<and>
      ConfigPath (?fn []) = []"
    using c1 c2 by (simp add: kptfileDoc_def KptFileName_def applySetters_def)
  note f4 = manifest_failures[THEN conjunct2, THEN conjunct2, THEN conjunct2, THEN conjunct1, THEN mp, OF k4,
      of ?ord exampleParse exampleString New]
  have e4: "snd (snd (?F [kptfileDoc (applySetters [] None), exampleDoc])) = None" by code_simp
  then have p4: "?F [kptfileDoc (applySetters [] None), exampleDoc] = (fst (?F [kptfileDoc (applySetters [] None), exampleDoc]), fst (snd (?F [kptfileDoc (applySetters [] None), exampleDoc])), None)"
    by (metis prod.collapse)
  have vs4: "countedScalar ''replicas'' (valuesNamed ''replicas'' (walkAll [kptfileDoc (applySetters [] None), exampleDoc]))
      (map_of (ScalarSetters New) ''replicas'') = Some \<lparr>Name_s = ''replicas'', Value_s = ''3'', Count_s = 1\<rparr>"
    by code_simp
  have va4: "countedArray ''zones'' (fieldsNamed ''zones'' (walkAll [kptfileDoc (applySetters [] None), exampleDoc]))
      (map_of (ArraySetters New) ''zones'') = Some \<lparr>Name_a = ''zones'', Values_a = [''a'', ''b''], Count_a = 1\<rparr>"
    by code_simp
  note g4 = manifest_failures[where name="''replicas''", THEN conjunct2, THEN conjunct2,
      THEN conjunct2, THEN conjunct2, THEN conjunct2, THEN conjunct2, THEN mp,
      OF conjI[OF ord conjI[OF f4[THEN conjunct1] p4]]]
  note ga4 = manifest_failures[where name="''zones''", THEN conjunct2, THEN conjunct2,
      THEN conjunct2, THEN conjunct2, THEN conjunct2, THEN conjunct2, THEN mp,
      OF conjI[OF ord conjI[OF f4[THEN conjunct1] p4]]]
  have w4: "Warnings (fst (?F [kptfileDoc (applySetters [] None), exampleDoc])) = [ErrSetterDiscovery ''unable to find ConfigMap or ConfigPath fnConfig for apply-setters'']"
    using g4[THEN conjunct1] by (simp add: New_def)
  have r4: "snd (?F [kptfileDoc (applySetters [] None), exampleDoc]) = (Some [kptfileDoc (applySetters [] None), exampleDoc], None)"
    using g4[THEN conjunct2, THEN conjunct1] e4 by (metis prod.collapse)
  have s4: "map_of (ScalarSetters (fst (?F [kptfileDoc (applySetters [] None), exampleDoc]))) ''replicas'' = Some \<lparr>Name_s = ''replicas'', Value_s = ''3'', Count_s = 1\<rparr>"
    using g4[THEN conjunct2, THEN conjunct2, THEN conjunct1]
    unfolding vs4 .
  have a4: "map_of (ArraySetters (fst (?F [kptfileDoc (applySetters [] None), exampleDoc]))) ''zones'' = Some \<lparr>Name_a = ''zones'', Values_a = [''a'', ''b''], Count_a = 1\<rparr>"
    using ga4[THEN conjunct2, THEN conjunct2, THEN conjunct2]
    unfolding va4 .
  \<comment> \<open>the configuration file is missing\<close>
  let ?nodes5 = "[kptfileDoc (applySetters ''setters.yaml'' None), exampleDoc]"
  have k5: "FindKptfile ?nodes5 = Inr (applySetters ''setters.yaml'' None) \<and>
      Pipeline (applySetters ''setters.yaml'' None) =
        Some \<lparr>Mutators = [?labels, ?fn ''setters.yaml'']\<rparr> \<and>
      Mutators \<lparr>Mutators = [?labels, ?fn ''setters.yaml'']\<rparr> =
        [?labels] @ ?fn ''setters.yaml'' # [] \<and>
      (\<forall>f\<in>set [?labels]. \<not> Contains (Image f) ''apply-setters'') \<and>
      Contains (Image (?fn ''setters.yaml'')) ''apply-setters'' \<and>
      ConfigMap (?fn ''setters.yaml'') = None \<and>
      ConfigPath (?fn ''setters.yaml'') \<noteq> [] \<and>
      (\<forall>n\<in>set ?nodes5. PathAnnotation n \<noteq> ConfigPath (?fn ''setters.yaml''))"
    using c1 c2 by (simp add: kptfileDoc_def exampleDoc_def KptFileName_def applySetters_def)
  note f5 = manifest_failures[THEN conjunct2, THEN conjunct2, THEN conjunct2, THEN conjunct2,
      THEN conjunct1, THEN mp, OF k5, of ?ord exampleParse exampleString New]
  have r5: "?F ?nodes5 =
     (New, Some ?nodes5,
      Some (Failure (''file setters.yaml doesn'' @ [CHR 0x27] @
        ''t exist, please ensure the file specified in '' @ [CHR 0x22] @ ''configPath'' @
        [CHR 0x22] @ '' exists and retry'')))"
    using f5 by simp
  from p0 w1 r1' s1 a1 gr w2 r2 s2 a2 w3 r3 s3 a3 w4 r4 s4 a4 r5 show ?thesis by blast
qed

text \<open>
  C9: two passes over the same document set, each from the empty registry and each with
  its own order of map iteration, return the same documents and the same error, and their
  registries give the same list of results, sorted by name. The documents returned are the
  documents given.
\<close>

theorem discovery_repeatable:
  "iterOrder ord1 \<Longrightarrow> iterOrder ord2 \<Longrightarrow>
   (\<forall>s. FindSettersFromKptfile nodes = Inr s \<longrightarrow> distinct (map fst s)) \<Longrightarrow>
   Filter ord1 Parse String New nodes = (ls1, out1, err1) \<Longrightarrow>
   Filter ord2 Parse String New nodes = (ls2, out2, err2) \<Longrightarrow>
   GetResults ord1 ls1 = GetResults ord2 ls2 \<and> sorted (map Name_r (GetResults ord1 ls1)) \<and>
   out1 = out2 \<and> err1 = err2 \<and> (err1 = None \<longrightarrow> out1 = Some nodes)"
proof -
  assume o1: "iterOrder ord1" and o2: "iterOrder ord2"
    and d: "\<forall>s. FindSettersFromKptfile nodes = Inr s \<longrightarrow> distinct (map fst s)"
    and f1: "Filter ord1 Parse String New nodes = (ls1, out1, err1)"
    and f2: "Filter ord2 Parse String New nodes = (ls2, out2, err2)"
  from d have d': "\<And>s. FindSettersFromKptfile nodes = Inr s \<Longrightarrow> distinct (map fst s)" by blast
  from Filter_same[OF o1 o2 _ sameSetters_refl[of New], of nodes Parse String, OF d'] f1 f2
  have s: "sameSetters ls1 ls2" and e: "out1 = out2" "err1 = err2" by simp_all
  from wellFormed_Filter[OF o1 wellFormed_New, where Parse=Parse and String=String and nodes=nodes] f1
  have w1: "wellFormed ls1" by simp
  from wellFormed_Filter[OF o2 wellFormed_New, where Parse=Parse and String=String and nodes=nodes] f2
  have w2: "wellFormed ls2" by simp
  have g: "GetResults ord1 ls1 = GetResults ord2 ls2"
    using o1 o2 w1 w2 s by (rule GetResults_same)
  have st: "sorted (map Name_r (GetResults ord1 ls1))" by (simp add: GetResults_def)
  have n: "out1 = Some nodes" if "err1 = None"
  proof (cases "FindSettersFromKptfile nodes")
    case (Inl err)
    show ?thesis
    proof (cases err)
      case (Discovery dd)
      with Inl f1 that show ?thesis by (auto simp: Filter_cases dest: discover_out)
    next
      case (Failure m)
      with Inl f1 that show ?thesis by (simp add: Filter_cases)
    qed
  next
    case (Inr s)
    with f1 that show ?thesis by (auto simp: Filter_cases dest: discover_out)
  qed
  from g st e n show ?thesis by blast
qed

theorem discovery_repeatable_witness:
  "iterOrder (\<lambda>n. [0..<n]) \<and> iterOrder (\<lambda>n. rev [0..<n]) \<and>
   FindSettersFromKptfile
     [kptfileDoc (applySetters [] (Some [(''zones'', ''[b, a]''), (''replicas'', ''5'')])), exampleDoc] =
     Inr [(''zones'', ''[b, a]''), (''replicas'', ''5'')] \<and>
   distinct (map fst [(''zones'', ''[b, a]''), (''replicas'', ''5'')]) \<and>
   GetResults (\<lambda>n. [0..<n]) (fst (Filter (\<lambda>n. [0..<n]) exampleParse exampleString New
     [kptfileDoc (applySetters [] (Some [(''zones'', ''[b, a]''), (''replicas'', ''5'')])), exampleDoc])) =
   GetResults (\<lambda>n. rev [0..<n]) (fst (Filter (\<lambda>n. rev [0..<n]) exampleParse exampleString New
     [kptfileDoc (applySetters [] (Some [(''zones'', ''[b, a]''), (''replicas'', ''5'')])), exampleDoc]))"
proof -
  let ?nodes = "[kptfileDoc (applySetters [] (Some [(''zones'', ''[b, a]''), (''replicas'', ''5'')])),
    exampleDoc]"
  have a: "iterOrder (\<lambda>n. [0..<n])" by (rule iterOrder_upt)
  have b: "iterOrder (\<lambda>n. rev [0..<n])" by (rule iterOrder_rev_upt)
  have c: "FindSettersFromKptfile ?nodes = Inr [(''zones'', ''[b, a]''), (''replicas'', ''5'')]"
    by code_simp
  have d: "distinct (map fst [(''zones'', ''[b, a]''), (''replicas'', ''5'')])" by simp
  from c d have h: "\<forall>s. FindSettersFromKptfile ?nodes = Inr s \<longrightarrow> distinct (map fst s)" by simp
  have "GetResults (\<lambda>n. [0..<n]) (fst (Filter (\<lambda>n. [0..<n]) exampleParse exampleString New ?nodes)) =
    GetResults (\<lambda>n. rev [0..<n]) (fst (Filter (\<lambda>n. rev [0..<n]) exampleParse exampleString New ?nodes))"
    using discovery_repeatable[OF a b h, where Parse=exampleParse and String=exampleString
        and ?ls1.0="fst (Filter (\<lambda>n. [0..<n]) exampleParse exampleString New ?nodes)"
        and ?out1.0="fst (snd (Filter (\<lambda>n. [0..<n]) exampleParse exampleString New ?nodes))"
        and ?err1.0="snd (snd (Filter (\<lambda>n. [0..<n]) exampleParse exampleString New ?nodes))"
        and ?ls2.0="fst (Filter (\<lambda>n. rev [0..<n]) exampleParse exampleString New ?nodes)"
        and ?out2.0="fst (snd (Filter (\<lambda>n. rev [0..<n]) exampleParse exampleString New ?nodes))"
        and ?err2.0="snd (snd (Filter (\<lambda>n. rev [0..<n]) exampleParse exampleString New ?nodes))"]
    by simp
  with a b c d show ?thesis by blast
qed

end
